theory Spec2Isabelle
  imports Main "HOL-Library.Multiset"
begin

section \<open>NomXML: the data model (nomxml.h)\<close>

text \<open>
  Characters. The library reads 8-bit characters and widens each to \<open>wchar_t\<close>; the parser
  only compares a character with ASCII constants and with 0 and classifies it with
  \<open>iswspace\<close>, so the widened character is modelled by the byte itself (\<open>char\<close>).
  \<open>iswspace\<close> is the classification of the "C" locale: space and the controls 9 to 13.
\<close>

definition NUL :: char where
  "NUL = CHR 0x00"

definition iswspace :: "char \<Rightarrow> bool" where
  "iswspace c = (c = CHR 0x20 \<or> c = CHR 0x09 \<or> c = CHR 0x0A \<or> c = CHR 0x0B
                 \<or> c = CHR 0x0C \<or> c = CHR 0x0D)"

text \<open>\<open>struct XmlAttribute\<close>.\<close>

record XmlAttribute =
  att_Name :: string
  att_Value :: string

text \<open>
  The node classes \<open>XmlBeginNode\<close>, \<open>XmlValueNode\<close> and \<open>XmlEndNode\<close>. The field
  \<open>m_Name\<close> of the base class is \<open>begin_Name\<close>, \<open>value_Name\<close>, \<open>end_Name\<close>; the field
  \<open>m_Type\<close> is the constructor of \<open>XmlNodeBase\<close> below.
\<close>

record XmlBeginNode =
  begin_Name :: string
  begin_Attribs :: "XmlAttribute list"
  begin_Offset :: nat

record XmlValueNode =
  value_Name :: string
  value_Value :: string

record XmlEndNode =
  end_Name :: string

text \<open>A node handed to the caller through \<open>ptrref\<close> (the result of \<open>Clone\<close>).\<close>

datatype XmlNodeBase =
  BeginNode XmlBeginNode
| ValueNode XmlValueNode
| EndNode XmlEndNode

datatype XmlNodeType =
  XmlNodeType_Invalid | XmlNodeType_Begin | XmlNodeType_Value | XmlNodeType_End

text \<open>\<open>class XmlElementBase\<close>: one entry of the stack of nested elements.\<close>

record XmlElementBase =
  m_Begin :: XmlBeginNode
  m_Value :: XmlValueNode
  m_End :: XmlEndNode

definition XmlElementBase_new :: XmlElementBase where
  "XmlElementBase_new =
     \<lparr>m_Begin = \<lparr>begin_Name = [], begin_Attribs = [], begin_Offset = 0\<rparr>,
      m_Value = \<lparr>value_Name = [], value_Value = []\<rparr>,
      m_End = \<lparr>end_Name = []\<rparr>\<rparr>"

section \<open>The memory input interface\<close>

text \<open>
  \<open>class XmlMemoryInputInterface\<close>, the reader of \<open>BeginParsingFromMemory\<close>. Its fields
  \<open>m_Data\<close>, \<open>m_DataSize\<close> and \<open>m_DataPos\<close> are \<open>mem_Data\<close>, \<open>mem_DataSize\<close> and
  \<open>mem_DataPos\<close> here (the parser has fields of the same names). \<open>mem_Data\<close> is a
  pointer: \<open>None\<close> is the null pointer, \<open>Some bytes\<close> a buffer holding \<open>bytes\<close>. The file
  interface, which rests on the \<open>FILE\<close> of the C library, is not part of this
  development: the reader of a parser is a memory interface, or null.
\<close>

record XmlMemoryInputInterface =
  mem_Data :: "string option"
  mem_DataSize :: nat
  mem_DataPos :: nat

definition XmlMemoryInputInterface_new :: "string option \<Rightarrow> nat \<Rightarrow> XmlMemoryInputInterface" where
  "XmlMemoryInputInterface_new data datasize =
     \<lparr>mem_Data = data, mem_DataSize = datasize, mem_DataPos = 0\<rparr>"

definition GetFileLength :: "XmlMemoryInputInterface \<Rightarrow> nat" where
  "GetFileLength r = mem_DataSize r"

text \<open>\<open>Seek\<close> returns the flag and the reader with its new position.\<close>

definition Seek :: "XmlMemoryInputInterface \<Rightarrow> nat \<Rightarrow> bool \<times> XmlMemoryInputInterface" where
  "Seek r offset =
     (let r1 = r\<lparr>mem_DataPos := offset\<rparr>
      in if mem_DataPos r1 > mem_DataSize r1
         then (False, r1\<lparr>mem_DataPos := mem_DataSize r1\<rparr>)
         else (True, r1))"

text \<open>\<open>ReadChar\<close>: \<open>Some (c, r')\<close> is the return of true with the character read.\<close>

definition ReadChar :: "XmlMemoryInputInterface \<Rightarrow> (char \<times> XmlMemoryInputInterface) option" where
  "ReadChar r =
     (case mem_Data r of
        None \<Rightarrow> None
      | Some bytes \<Rightarrow>
          if mem_DataPos r < mem_DataSize r
          then Some (bytes ! mem_DataPos r, r\<lparr>mem_DataPos := mem_DataPos r + 1\<rparr>)
          else None)"

definition EndOfFile :: "XmlMemoryInputInterface \<Rightarrow> bool" where
  "EndOfFile r = (mem_Data r = None \<or> mem_DataPos r > mem_DataSize r)"

section \<open>The parser state and its character cursor\<close>

record XmlParser =
  m_Stack :: "XmlElementBase list"
  m_PriorTagType :: XmlNodeType
  m_PriorWasEmptyTag :: bool
  m_PriorName :: string
  m_Reader :: "XmlMemoryInputInterface option"
  m_DataSize :: nat
  m_DataPos :: nat
  m_ErrorInfo :: string
  m_CurChar :: char
  m_CurToken :: string

text \<open>The constructor \<open>XmlParser::XmlParser()\<close>.\<close>

definition XmlParser_new :: XmlParser where
  "XmlParser_new =
     \<lparr>m_Stack = [], m_PriorTagType = XmlNodeType_Invalid, m_PriorWasEmptyTag = False,
      m_PriorName = [], m_Reader = None, m_DataSize = 0, m_DataPos = 0,
      m_ErrorInfo = [], m_CurChar = NUL, m_CurToken = []\<rparr>"

definition Reset :: "XmlParser \<Rightarrow> XmlParser" where
  "Reset s = s\<lparr>m_Stack := [], m_PriorWasEmptyTag := False, m_PriorName := [],
               m_Reader := None, m_DataSize := 0, m_DataPos := 0\<rparr>"

definition EndOfDocument :: "XmlParser \<Rightarrow> bool" where
  "EndOfDocument s = (case m_Reader s of None \<Rightarrow> True | Some r \<Rightarrow> EndOfFile r)"

definition CurPosition :: "XmlParser \<Rightarrow> nat" where
  "CurPosition s = m_DataPos s"

definition CurChar :: "XmlParser \<Rightarrow> char" where
  "CurChar s = m_CurChar s"

definition CurToken :: "XmlParser \<Rightarrow> string" where
  "CurToken s = m_CurToken s"

definition ErrorInfo :: "XmlParser \<Rightarrow> string" where
  "ErrorInfo s = m_ErrorInfo s"

definition NextChar :: "XmlParser \<Rightarrow> bool \<times> XmlParser" where
  "NextChar s =
     (let s0 = s\<lparr>m_CurChar := NUL\<rparr>
      in case m_Reader s0 of
           None \<Rightarrow> (False, s0)
         | Some r \<Rightarrow>
             (case ReadChar r of
                None \<Rightarrow> (False, s0)
              | Some (c, r') \<Rightarrow>
                  (True, s0\<lparr>m_Reader := Some r', m_CurChar := c,
                            m_DataPos := m_DataPos s0 + 1\<rparr>)))"

text \<open>
  The number of characters the reader can still deliver: the measure under which the
  loops of the parser end.
\<close>

definition remaining :: "XmlParser \<Rightarrow> nat" where
  "remaining s =
     (case m_Reader s of
        None \<Rightarrow> 0
      | Some r \<Rightarrow> (case mem_Data r of None \<Rightarrow> 0 | Some bytes \<Rightarrow> mem_DataSize r - mem_DataPos r))"

lemma NextChar_True:
  "fst (NextChar s) \<Longrightarrow> remaining (snd (NextChar s)) < remaining s"
  by (auto simp: NextChar_def remaining_def ReadChar_def Let_def
           split: option.splits if_splits)

lemma NextChar_False:
  "\<not> fst (NextChar s) \<Longrightarrow>
     remaining (snd (NextChar s)) = remaining s \<and> m_CurChar (snd (NextChar s)) = NUL"
  by (auto simp: NextChar_def remaining_def ReadChar_def Let_def
           split: option.splits if_splits)

lemma NextChar_remaining_le: "remaining (snd (NextChar s)) \<le> remaining s"
  using NextChar_True [of s] NextChar_False [of s] by (cases "fst (NextChar s)") auto

lemma NextChar_nonzero:
  "m_CurChar (snd (NextChar s)) \<noteq> NUL \<Longrightarrow> remaining (snd (NextChar s)) < remaining s"
  using NextChar_True [of s] NextChar_False [of s] by (cases "fst (NextChar s)") auto

section \<open>Starting a session\<close>

definition BeginParsingImpl :: "XmlParser \<Rightarrow> bool \<times> XmlParser" where
  "BeginParsingImpl s =
     (case m_Reader s of
        None \<Rightarrow> (False, s)
      | Some r \<Rightarrow>
          (let s1 = s\<lparr>m_DataSize := GetFileLength r\<rparr>
           in case NextChar s1 of
                (False, s2) \<Rightarrow>
                   (False, s2\<lparr>m_ErrorInfo := ''Empty document.  No XML tags found.''\<rparr>)
              | (True, s2) \<Rightarrow> (True, s2)))"

definition BeginParsingFromMemory ::
  "XmlParser \<Rightarrow> string option \<Rightarrow> nat \<Rightarrow> bool \<times> XmlParser" where
  "BeginParsingFromMemory s data numbytes =
     BeginParsingImpl ((Reset s)\<lparr>m_Reader := Some (XmlMemoryInputInterface_new data numbytes)\<rparr>)"

section \<open>The loops over the character cursor\<close>

text \<open>
  The source has seven loops of the shape
  \<^verbatim>\<open>while (cond(CurChar())) { token += CurChar(); NextChar(); }\<close>
  (some without the accumulation). \<open>read_while P acc s\<close> is that loop, with \<open>acc\<close> the
  string accumulated so far. Every condition of the source is false at the character 0
  (\<open>iswspace(0)\<close> is false, the others test \<open>CurChar() != 0\<close> themselves), which is what
  ends the loop at the end of the input; the test is written out here once.
\<close>

function read_while :: "(char \<Rightarrow> bool) \<Rightarrow> string \<Rightarrow> XmlParser \<Rightarrow> string \<times> XmlParser" where
  "read_while P acc s =
     (if CurChar s \<noteq> NUL \<and> P (CurChar s)
      then read_while P (acc @ [CurChar s]) (snd (NextChar s))
      else (acc, s))"
  by pat_completeness auto
termination
proof (relation "measure (\<lambda>(P, acc, s). remaining s + (if CurChar s \<noteq> NUL \<and> P (CurChar s) then 1 else 0))")
  show "wf (measure (\<lambda>(P, acc, s). remaining s + (if CurChar s \<noteq> NUL \<and> P (CurChar s) then 1 else 0)))"
    by simp
next
  fix P :: "char \<Rightarrow> bool" and acc :: string and s :: XmlParser
  assume "CurChar s \<noteq> NUL \<and> P (CurChar s)"
  then show "((P, acc @ [CurChar s], snd (NextChar s)), (P, acc, s))
        \<in> measure (\<lambda>(P, acc, s). remaining s + (if CurChar s \<noteq> NUL \<and> P (CurChar s) then 1 else 0))"
    using NextChar_True [of s] NextChar_False [of s]
    by (cases "fst (NextChar s)") (auto simp: CurChar_def)
qed

declare read_while.simps [simp del]

text \<open>The two delimiter sets, and \<open>IsWhiteSpace\<close>.\<close>

definition xmlDelimsWithEquals :: string where
  "xmlDelimsWithEquals =
     [CHR ''='', CHR ''>'', CHR ''<'', CHR ''?'', CHR 0x20, CHR 0x0D, CHR 0x0A, CHR 0x09]"

definition xmlDelimsWithSlash :: string where
  "xmlDelimsWithSlash =
     [CHR ''/'', CHR ''>'', CHR ''<'', CHR ''?'', CHR 0x20, CHR 0x0D, CHR 0x0A, CHR 0x09]"

definition IsWhiteSpace :: "string \<Rightarrow> bool" where
  "IsWhiteSpace text = list_all iswspace text"

section \<open>The tokenizer\<close>

text \<open>
  \<open>accumulate_token P s\<close> is a loop that appends to \<open>m_CurToken\<close>:
  \<^verbatim>\<open>while (cond) { m_CurToken += CurChar(); NextChar(); }\<close>.
\<close>

definition accumulate_token :: "(char \<Rightarrow> bool) \<Rightarrow> XmlParser \<Rightarrow> XmlParser" where
  "accumulate_token P s =
     (case read_while P (m_CurToken s) s of (tok, s') \<Rightarrow> s'\<lparr>m_CurToken := tok\<rparr>)"

definition NextToken :: "string \<Rightarrow> XmlParser \<Rightarrow> bool \<times> XmlParser" where
  "NextToken delims s =
     (let s0 = s\<lparr>m_CurToken := []\<rparr>;
          s1 = snd (read_while iswspace [] s0);
          s2 = (if CurChar s1 = CHR 0x22 then
                  (let s3 = snd (NextChar s1);
                       s4 = accumulate_token (\<lambda>c. c \<noteq> CHR 0x22) s3
                   in if CurChar s4 = CHR 0x22 then snd (NextChar s4) else s4)
                else if CurChar s1 = CHR 0x27 then
                  (let s3 = snd (NextChar s1);
                       s4 = accumulate_token (\<lambda>c. c \<noteq> CHR 0x27) s3
                   in if CurChar s4 = CHR 0x27 then snd (NextChar s4) else s4)
                else accumulate_token (\<lambda>c. c \<notin> set delims) s1);
          s5 = snd (read_while iswspace [] s2)
      in if m_CurToken s5 = [] \<and> EndOfDocument s5 then (False, s5) else (True, s5))"

section \<open>The parsing functions\<close>

text \<open>
  A read of \<open>m_Stack[m_Stack.size() - 1]\<close> or an \<open>erase\<close> of that position on an empty
  vector is outside the vector (the index wraps around to the largest \<open>size_t\<close>; here
  it is 0, which is not below the size either): the model makes it the fault
  \<open>EmptyStackAccess\<close>. The top of the stack is the last element of the list.
  A parsing function returns \<open>Inr (node, s')\<close>: \<open>node = Some n\<close> is the return of true
  with \<open>ptrref\<close> holding \<open>n\<close>, \<open>node = None\<close> the return of false with \<open>ptrref\<close> null.
\<close>

datatype fault = EmptyStackAccess

type_synonym NodeResult = "fault + (XmlNodeBase option \<times> XmlParser)"

definition stack_top :: "XmlElementBase list \<Rightarrow> fault + XmlElementBase" where
  "stack_top st = (if length st - 1 < length st then Inr (st ! (length st - 1)) else Inl EmptyStackAccess)"

definition stack_erase_top :: "XmlElementBase list \<Rightarrow> fault + XmlElementBase list" where
  "stack_erase_top st = (if length st - 1 < length st then Inr (take (length st - 1) st) else Inl EmptyStackAccess)"

text \<open>\<open>wcscmp(a, b) != 0\<close> on the C strings of two wide strings: each ends at its first 0.\<close>

definition c_str :: "string \<Rightarrow> string" where
  "c_str text = takeWhile (\<lambda>c. c \<noteq> NUL) text"

definition wcscmp_differs :: "string \<Rightarrow> string \<Rightarrow> bool" where
  "wcscmp_differs a b = (c_str a \<noteq> c_str b)"

definition ParseTagValueNode :: "string \<Rightarrow> XmlParser \<Rightarrow> NodeResult" where
  "ParseTagValueNode prefix s =
     (case read_while (\<lambda>c. c \<noteq> CHR ''<'') prefix s of
        (token, s1) \<Rightarrow>
          if m_Stack s1 = [] then
            (if \<not> IsWhiteSpace token
             then Inr (None, s1\<lparr>m_ErrorInfo :=
                         ''Unexpected data outside of all tags:  '' @ [CHR 0x27] @ token @ [CHR 0x27]\<rparr>)
             else Inr (None, s1))
          else
            (case stack_top (m_Stack s1) of
               Inl f \<Rightarrow> Inl f
             | Inr celm \<Rightarrow>
                 (let celm1 = celm\<lparr>m_Value := \<lparr>value_Name = begin_Name (m_Begin celm),
                                                value_Value = token\<rparr>\<rparr>
                  in Inr (Some (ValueNode (m_Value celm1)),
                          s1\<lparr>m_Stack := (m_Stack s1)[length (m_Stack s1) - 1 := celm1]\<rparr>))))"

definition ParseEndTagNode :: "XmlParser \<Rightarrow> NodeResult" where
  "ParseEndTagNode s =
     (let s1 = snd (NextChar s)
      in case NextToken xmlDelimsWithEquals s1 of
           (False, s2) \<Rightarrow> Inr (None, s2\<lparr>m_ErrorInfo := ''Unexpected end of input.''\<rparr>)
         | (True, s2) \<Rightarrow>
             (let token = CurToken s2
              in if CurChar s2 \<noteq> CHR ''>''
                 then Inr (None, s2\<lparr>m_ErrorInfo := ''Expected '' @ [CHR 0x27] @ ''>'' @ [CHR 0x27]
                                       @ '' at end of tag:  '' @ CurToken s2\<rparr>)
                 else
                   (let s3 = snd (NextChar s2)
                    in if m_Stack s3 = []
                       then Inr (None, s3\<lparr>m_ErrorInfo :=
                                   ''Unexpected end tag outside of all tags:  '' @ token\<rparr>)
                       else
                         (case stack_top (m_Stack s3) of
                            Inl f \<Rightarrow> Inl f
                          | Inr celm \<Rightarrow>
                              if wcscmp_differs token (begin_Name (m_Begin celm))
                              then Inr (None, s3\<lparr>m_ErrorInfo :=
                                          ''Mismatched end tag, found '' @ [CHR 0x27] @ token
                                          @ [CHR 0x27] @ '', expected '' @ [CHR 0x27]
                                          @ begin_Name (m_Begin celm) @ [CHR 0x27]\<rparr>)
                              else
                                (let celm1 = celm\<lparr>m_End := \<lparr>end_Name = begin_Name (m_Begin celm)\<rparr>\<rparr>;
                                     st1 = (m_Stack s3)[length (m_Stack s3) - 1 := celm1]
                                 in case stack_erase_top st1 of
                                      Inl f \<Rightarrow> Inl f
                                    | Inr st2 \<Rightarrow>
                                        Inr (Some (EndNode (m_End celm1)), s3\<lparr>m_Stack := st2\<rparr>))))))"

text \<open>
  The attribute loop of \<open>ParseBeginTagNode\<close>:
  \<^verbatim>\<open>while (CurChar() != '/' && CurChar() != '>' && CurChar() != '?') { ... }\<close>.
  Nothing in its body is bound to consume a character (at the end of the input, or at a
  delimiter such as \<open><\<close>, \<open>NextToken\<close> reads nothing), so the loop may run forever:
  \<open>None\<close> is the run that does not return.
\<close>

partial_function (option) parse_attribs ::
  "XmlElementBase \<Rightarrow> XmlParser \<Rightarrow> (XmlElementBase \<times> XmlParser) option" where
  "parse_attribs elm s =
     (if CurChar s \<noteq> CHR ''/'' \<and> CurChar s \<noteq> CHR ''>'' \<and> CurChar s \<noteq> CHR ''?'' then
        (let s1 = snd (NextToken xmlDelimsWithEquals s);
             attribname = CurToken s1;
             att = \<lparr>att_Name = attribname, att_Value = []\<rparr>;
             s2 = (if CurChar s1 = CHR ''=''
                   then snd (NextToken xmlDelimsWithEquals (snd (NextChar s1)))
                   else s1);
             att1 = (if CurChar s1 = CHR ''='' then att\<lparr>att_Value := CurToken s2\<rparr> else att)
         in parse_attribs
              (elm\<lparr>m_Begin := (m_Begin elm)\<lparr>begin_Attribs := begin_Attribs (m_Begin elm) @ [att1]\<rparr>\<rparr>)
              s2)
      else Some (elm, s))"

declare parse_attribs.simps [code]

text \<open>\<open>size_t tagoffset = m_DataPos - 2\<close>: the subtraction of \<open>size_t\<close> (64 bits) wraps.\<close>

definition size_t_sub :: "nat \<Rightarrow> nat \<Rightarrow> nat" where
  "size_t_sub a b = (if b \<le> a then a - b else a + 2 ^ 64 - b)"

definition ParseBeginTagNode :: "XmlParser \<Rightarrow> NodeResult option" where
  "ParseBeginTagNode s =
     (let tagoffset = size_t_sub (m_DataPos s) 2;
          bQuestionMarked = (CurChar s = CHR ''?'');
          s1 = (if bQuestionMarked then snd (NextChar s) else s)
      in case NextToken xmlDelimsWithSlash s1 of
           (False, s2) \<Rightarrow> Some (Inr (None, s2\<lparr>m_ErrorInfo := ''Unexpected end of input.''\<rparr>))
         | (True, s2) \<Rightarrow>
             (let token = CurToken s2;
                  elm = XmlElementBase_new\<lparr>m_Begin := (m_Begin XmlElementBase_new)
                          \<lparr>begin_Name := token, begin_Offset := tagoffset\<rparr>\<rparr>
              in case parse_attribs elm s2 of
                   None \<Rightarrow> None
                 | Some (elm1, s3) \<Rightarrow>
                     if bQuestionMarked \<and> CurChar s3 \<noteq> CHR ''?''
                     then Some (Inr (None, s3\<lparr>m_ErrorInfo :=
                             ''Expected '' @ [CHR 0x27] @ ''?'' @ [CHR 0x27] @ '' at end of tag.''\<rparr>))
                     else
                       (let s4 = (if bQuestionMarked
                                  then snd (NextChar (s3\<lparr>m_PriorWasEmptyTag := True\<rparr>))
                                  else s3);
                            elm2 = (if bQuestionMarked
                                    then elm1\<lparr>m_End := \<lparr>end_Name = begin_Name (m_Begin elm1)\<rparr>\<rparr>
                                    else elm1);
                            s5 = (if CurChar s4 = CHR ''/''
                                  then snd (NextChar (s4\<lparr>m_PriorWasEmptyTag := True\<rparr>))
                                  else s4);
                            elm3 = (if CurChar s4 = CHR ''/''
                                    then elm2\<lparr>m_End := \<lparr>end_Name = begin_Name (m_Begin elm2)\<rparr>\<rparr>
                                    else elm2)
                        in if CurChar s5 \<noteq> CHR ''>''
                           then Some (Inr (None, s5\<lparr>m_ErrorInfo :=
                                   ''Expected '' @ [CHR 0x27] @ ''>'' @ [CHR 0x27] @ '' at end of tag.''\<rparr>))
                           else
                             (let s6 = snd (NextChar s5)
                              in Some (Inr (Some (BeginNode (m_Begin elm3)),
                                            s6\<lparr>m_Stack := m_Stack s6 @ [elm3]\<rparr>))))))"

text \<open>
  \<open>EatComment\<close> and \<open>EatMarkedSection\<close> are the same loop but for the character that
  closes the section (\<open>-\<close> for a comment, \<open>]\<close> for a marked section): \<open>eat_section\<close> is
  that loop, for either kind.
\<close>

datatype section_kind = Comment | MarkedSection

fun closer :: "section_kind \<Rightarrow> char" where
  "closer Comment = CHR ''-''"
| "closer MarkedSection = CHR '']''"

function eat_section :: "section_kind \<Rightarrow> XmlParser \<Rightarrow> bool \<times> XmlParser" where
  "eat_section k s =
     (if CurChar s = closer k then
        (let s1 = snd (NextChar s)
         in if CurChar s1 = closer k then
              (let s2 = snd (NextChar s1)
               in if CurChar s2 = CHR ''>'' then
                    (case NextChar s2 of
                       (False, s3) \<Rightarrow> (False, s3\<lparr>m_ErrorInfo := ''Unexpected end of input.''\<rparr>)
                     | (True, s3) \<Rightarrow> (True, s3))
                  else eat_section k s2)
            else eat_section k s1)
      else
        (case NextChar s of
           (False, s1) \<Rightarrow> (False, s1\<lparr>m_ErrorInfo := ''Unexpected end of input.''\<rparr>)
         | (True, s1) \<Rightarrow> eat_section k s1))"
  by pat_completeness auto

lemma closer_not_NUL: "closer k \<noteq> NUL"
  by (cases k) (simp_all add: NUL_def)

termination eat_section
proof (relation "measure (\<lambda>(k, s). 2 * remaining s + (if CurChar s = NUL then 0 else 1))", goal_cases)
  case 1
  show ?case by simp
next
  case (2 k s s1 s2)
  have "remaining s1 < remaining s"
    using 2 closer_not_NUL [of k] NextChar_nonzero [of s] by (simp add: CurChar_def)
  moreover have "remaining s2 \<le> remaining s1"
    using 2 NextChar_remaining_le [of s1] by simp
  ultimately show ?case
    by simp
next
  case (3 k s s1)
  then show ?case
    using closer_not_NUL [of k] NextChar_True [of s] NextChar_False [of s]
    by (cases "fst (NextChar s)") (auto simp: CurChar_def)
next
  case (4 k s ok s1)
  then have "fst (NextChar s)" "s1 = snd (NextChar s)"
    by (metis fst_conv, metis snd_conv)
  then show ?case
    using NextChar_True [of s] by auto
qed

declare eat_section.simps [simp del]

definition EatComment :: "XmlParser \<Rightarrow> bool \<times> XmlParser" where
  "EatComment s = eat_section Comment s"

definition EatMarkedSection :: "XmlParser \<Rightarrow> bool \<times> XmlParser" where
  "EatMarkedSection s = eat_section MarkedSection s"

subsection \<open>Unfolding the loops, and what they preserve\<close>

lemma read_while_step:
  "CurChar s \<noteq> NUL \<Longrightarrow> P (CurChar s) \<Longrightarrow>
     read_while P acc s = read_while P (acc @ [CurChar s]) (snd (NextChar s))"
  by (subst read_while.simps) auto

lemma read_while_stop:
  "CurChar s = NUL \<or> \<not> P (CurChar s) \<Longrightarrow> read_while P acc s = (acc, s)"
  by (subst read_while.simps) auto

lemma read_while_remaining: "remaining (snd (read_while P acc s)) \<le> remaining s"
proof (induction P acc s rule: read_while.induct)
  case (1 P acc s)
  show ?case
  proof (cases "CurChar s \<noteq> NUL \<and> P (CurChar s)")
    case True
    with 1 [OF True] NextChar_remaining_le [of s] show ?thesis
      by (simp add: read_while_step)
  next
    case False
    then show ?thesis
      by (simp add: read_while_stop)
  qed
qed

lemma remaining_ErrorInfo [simp]: "remaining (s\<lparr>m_ErrorInfo := e\<rparr>) = remaining s"
  by (simp add: remaining_def)

lemma eat_section_found:
  "CurChar s = closer k \<Longrightarrow> CurChar (snd (NextChar s)) = closer k \<Longrightarrow>
   CurChar (snd (NextChar (snd (NextChar s)))) = CHR ''>'' \<Longrightarrow>
   eat_section k s =
     (if fst (NextChar (snd (NextChar (snd (NextChar s)))))
      then (True, snd (NextChar (snd (NextChar (snd (NextChar s))))))
      else (False, (snd (NextChar (snd (NextChar (snd (NextChar s))))))
                     \<lparr>m_ErrorInfo := ''Unexpected end of input.''\<rparr>))"
  by (subst eat_section.simps) (auto simp: Let_def split: prod.splits)

lemma eat_section_two:
  "CurChar s = closer k \<Longrightarrow> CurChar (snd (NextChar s)) = closer k \<Longrightarrow>
   CurChar (snd (NextChar (snd (NextChar s)))) \<noteq> CHR ''>'' \<Longrightarrow>
   eat_section k s = eat_section k (snd (NextChar (snd (NextChar s))))"
  by (subst eat_section.simps) (auto simp: Let_def)

lemma eat_section_one:
  "CurChar s = closer k \<Longrightarrow> CurChar (snd (NextChar s)) \<noteq> closer k \<Longrightarrow>
   eat_section k s = eat_section k (snd (NextChar s))"
  by (subst eat_section.simps) (auto simp: Let_def)

lemma eat_section_other:
  "CurChar s \<noteq> closer k \<Longrightarrow> fst (NextChar s) \<Longrightarrow>
   eat_section k s = eat_section k (snd (NextChar s))"
  by (subst eat_section.simps) (auto simp: Let_def split: prod.splits)

lemma eat_section_end:
  "CurChar s \<noteq> closer k \<Longrightarrow> \<not> fst (NextChar s) \<Longrightarrow>
   eat_section k s = (False, (snd (NextChar s))\<lparr>m_ErrorInfo := ''Unexpected end of input.''\<rparr>)"
  by (subst eat_section.simps) (auto simp: Let_def split: prod.splits)

lemma eat_section_preserves:
  assumes nc: "\<And>t. Q t \<Longrightarrow> Q (snd (NextChar t))"
    and err: "\<And>t e. Q t \<Longrightarrow> Q (t\<lparr>m_ErrorInfo := e\<rparr>)"
    and s: "Q s"
  shows "Q (snd (eat_section k s))"
  using s
proof (induction k s rule: eat_section.induct)
  case (1 k s)
  let ?s1 = "snd (NextChar s)"
  let ?s2 = "snd (NextChar ?s1)"
  have q1: "Q ?s1" and q2: "Q ?s2" and q3: "Q (snd (NextChar ?s2))"
    using "1.prems" nc by blast+
  consider (found) "CurChar s = closer k" "CurChar ?s1 = closer k" "CurChar ?s2 = CHR ''>''"
    | (two) "CurChar s = closer k" "CurChar ?s1 = closer k" "CurChar ?s2 \<noteq> CHR ''>''"
    | (one) "CurChar s = closer k" "CurChar ?s1 \<noteq> closer k"
    | (other) "CurChar s \<noteq> closer k" "fst (NextChar s)"
    | (stop) "CurChar s \<noteq> closer k" "\<not> fst (NextChar s)"
    by blast
  then show ?case
  proof cases
    case found
    then show ?thesis
      using q3 err by (simp add: eat_section_found)
  next
    case two
    then show ?thesis
      using "1.IH"(1) [OF two(1) refl two(2) refl two(3) q2] by (simp add: eat_section_two)
  next
    case one
    then show ?thesis
      using "1.IH"(2) [OF one(1) refl one(2) q1] by (simp add: eat_section_one)
  next
    case other
    have "(True, ?s1) = NextChar s"
      using other(2) by (cases "NextChar s") simp
    then show ?thesis
      using "1.IH"(3) [OF other(1) _ refl q1] other by (simp add: eat_section_other)
  next
    case stop
    then show ?thesis
      using q1 err by (simp add: eat_section_end)
  qed
qed

lemma read_while_preserves:
  assumes nc: "\<And>t. Q t \<Longrightarrow> Q (snd (NextChar t))"
    and s: "Q s"
  shows "Q (snd (read_while P acc s))"
  using s
proof (induction P acc s rule: read_while.induct)
  case (1 P acc s)
  show ?case
  proof (cases "CurChar s \<noteq> NUL \<and> P (CurChar s)")
    case True
    with 1 nc show ?thesis
      by (simp add: read_while_step)
  next
    case False
    with 1 show ?thesis
      by (simp add: read_while_stop)
  qed
qed

lemma eat_section_remaining: "remaining (snd (eat_section k s)) \<le> remaining s"
proof (rule eat_section_preserves [where Q = "\<lambda>t. remaining t \<le> remaining s"])
  fix t assume "remaining t \<le> remaining s"
  then show "remaining (snd (NextChar t)) \<le> remaining s"
    using NextChar_remaining_le [of t] by simp
qed simp_all

text \<open>
  \<open>ParseBangTag\<close> and \<open>NextNode\<close> call each other: after a comment or a marked
  section \<open>ParseBangTag\<close> parses the next node with \<open>NextNode\<close>.
\<close>

function ParseBangTag :: "XmlParser \<Rightarrow> NodeResult option"
  and NextNode :: "XmlParser \<Rightarrow> NodeResult option" where
  "ParseBangTag s =
     (let s1 = snd (NextChar s);
          c1 = CurChar s1;
          s2 = snd (NextChar s1)
      in if c1 = CHR ''['' then NextNode (snd (EatMarkedSection s2))
         else if c1 = CHR ''-'' \<and> CurChar s2 = CHR ''-''
              then NextNode (snd (EatComment (snd (NextChar s2))))
              else Some (Inr (None, s2\<lparr>m_ErrorInfo :=
                     ''Malformed tag beginning with '' @ [CHR 0x27] @ ''!'' @ [CHR 0x27]\<rparr>)))"
| "NextNode s =
     (if m_PriorWasEmptyTag s \<and> m_Stack s \<noteq> [] then
        (let s1 = s\<lparr>m_PriorWasEmptyTag := False\<rparr>
         in case stack_top (m_Stack s1) of
              Inl f \<Rightarrow> Some (Inl f)
            | Inr celm \<Rightarrow>
                (case stack_erase_top (m_Stack s1) of
                   Inl f \<Rightarrow> Some (Inl f)
                 | Inr st \<Rightarrow> Some (Inr (Some (EndNode (m_End celm)), s1\<lparr>m_Stack := st\<rparr>))))
      else
        (case read_while iswspace [] s of
           (token, s1) \<Rightarrow>
             if CurChar s1 = CHR ''<'' then
               (let s2 = snd (NextChar s1)
                in if CurChar s2 = CHR ''/'' then Some (ParseEndTagNode s2)
                   else if CurChar s2 = CHR ''!'' then ParseBangTag s2
                   else ParseBeginTagNode s2)
             else Some (ParseTagValueNode token s1)))"
  by pat_completeness auto

termination
proof (relation "measure (\<lambda>x. case x of Inl s \<Rightarrow> 2 * remaining s + 1 | Inr s \<Rightarrow> 2 * remaining s)", goal_cases)
  case 1
  show ?case by simp
next
  case (2 s s1 c1 s2)
  then show ?case
    using NextChar_remaining_le [of s] NextChar_remaining_le [of s1]
      eat_section_remaining [of MarkedSection s2]
    by (simp add: EatMarkedSection_def)
next
  case (3 s s1 c1 s2)
  then show ?case
    using NextChar_remaining_le [of s] NextChar_remaining_le [of s1] NextChar_remaining_le [of s2]
      eat_section_remaining [of Comment "snd (NextChar s2)"]
    by (simp add: EatComment_def)
next
  case (4 s token s1 s2)
  have "remaining s1 \<le> remaining s"
    using 4 read_while_remaining [of iswspace "[]" s] by (metis snd_conv)
  moreover have "remaining s2 < remaining s1"
    using 4 NextChar_nonzero [of s1] by (simp add: CurChar_def NUL_def)
  ultimately show ?case
    by simp
qed

declare ParseBangTag.simps [simp del] NextNode.simps [simp del]

section \<open>Callers\<close>

text \<open>
  A caller that calls \<open>NextNode\<close> \<open>n\<close> times, whatever it returns, and notes after each
  call the node it was given (\<open>None\<close> for the return of false) and \<open>CurPosition()\<close>.
\<close>

fun NextNode_calls ::
  "nat \<Rightarrow> XmlParser \<Rightarrow> ((XmlNodeBase option \<times> nat) list \<times> XmlParser) option" where
  "NextNode_calls 0 s = Some ([], s)"
| "NextNode_calls (Suc n) s =
     (case NextNode s of
        Some (Inr (node, s')) \<Rightarrow>
          map_option (\<lambda>(rs, t). ((node, CurPosition s') # rs, t)) (NextNode_calls n s')
      | _ \<Rightarrow> None)"

text \<open>
  The loop of \<open>parse\<close> in xmldump.cpp, \<^verbatim>\<open>while (xml.NextNode(node)) { ... }\<close>, with the
  nodes it is given collected in order. The loop ends at the first return of false; \<open>n\<close>
  bounds the number of calls, and \<open>None\<close> is a run that needs more (or a call that does
  not return).
\<close>

fun parse :: "nat \<Rightarrow> XmlParser \<Rightarrow> (XmlNodeBase list \<times> XmlParser) option" where
  "parse 0 s = None"
| "parse (Suc n) s =
     (case NextNode s of
        Some (Inr (Some node, s')) \<Rightarrow> map_option (\<lambda>(nodes, t). (node # nodes, t)) (parse n s')
      | Some (Inr (None, s')) \<Rightarrow> Some ([], s')
      | _ \<Rightarrow> None)"

section \<open>Starting a session on an empty input\<close>

text \<open>
  C9. Starting a session on zero bytes fails before any \<open>NextNode\<close> call: the start
  returns false and the error text is "Empty document.  No XML tags found."; a buffer of
  at least one byte starts successfully, with its first byte as the current character.
\<close>

theorem BeginParsingFromMemory_empty_document:
  "fst (BeginParsingFromMemory s data 0) = False
   \<and> ErrorInfo (snd (BeginParsingFromMemory s data 0)) = ''Empty document.  No XML tags found.''
   \<and> (0 < numbytes \<longrightarrow>
        fst (BeginParsingFromMemory s (Some bytes) numbytes) = True
        \<and> CurChar (snd (BeginParsingFromMemory s (Some bytes) numbytes)) = bytes ! 0
        \<and> ErrorInfo (snd (BeginParsingFromMemory s (Some bytes) numbytes)) = ErrorInfo s)"
  by (simp add: BeginParsingFromMemory_def BeginParsingImpl_def Reset_def NextChar_def
        ReadChar_def XmlMemoryInputInterface_new_def GetFileLength_def ErrorInfo_def
        CurChar_def Let_def split: option.split)

theorem BeginParsingFromMemory_empty_document_witness:
  "(0::nat) < 4
   \<and> fst (BeginParsingFromMemory XmlParser_new (Some []) 0) = False
   \<and> ErrorInfo (snd (BeginParsingFromMemory XmlParser_new (Some []) 0))
       = ''Empty document.  No XML tags found.''
   \<and> fst (BeginParsingFromMemory XmlParser_new (Some ''<a/>'') 4) = True
   \<and> CurChar (snd (BeginParsingFromMemory XmlParser_new (Some ''<a/>'') 4)) = CHR ''<''
   \<and> ErrorInfo (snd (BeginParsingFromMemory XmlParser_new (Some ''<a/>'') 4)) = []"
  using BeginParsingFromMemory_empty_document [of XmlParser_new "Some []" 4 "''<a/>''"]
  by (simp add: XmlParser_new_def ErrorInfo_def)

section \<open>Two documents\<close>

text \<open>
  C5. On the input \<open><a/>\<close> the first call of \<open>NextNode\<close> gives the begin node of \<open>a\<close>
  and the second call its end node, with no value node between them, and \<open>CurPosition\<close> is
  the same (4) after both calls: the end node of an empty tag consumes no input.
\<close>

theorem empty_tag_begin_then_end:
  "map_option fst (NextNode_calls 2 (snd (BeginParsingFromMemory XmlParser_new (Some ''<a/>'') 4)))
   = Some [(Some (BeginNode \<lparr>begin_Name = ''a'', begin_Attribs = [], begin_Offset = 0\<rparr>), 4),
           (Some (EndNode \<lparr>end_Name = ''a''\<rparr>), 4)]"
  by code_simp

text \<open>
  C6. On the input \<open><note><to>Mary</to></note>\<close> the calls of \<open>NextNode\<close> give, in this
  order, the begin node of \<open>note\<close>, the begin node of \<open>to\<close>, the value node of \<open>to\<close> with
  the text \<open>Mary\<close>, the end node of \<open>to\<close> and the end node of \<open>note\<close>; the sixth call
  returns false and the error text is empty. The offsets of the two begin nodes (0, 6)
  and the positions after the five nodes (7, 11, 15, 20, 26) increase strictly.
\<close>

theorem note_document_nodes:
  "(case NextNode_calls 6
           (snd (BeginParsingFromMemory XmlParser_new (Some ''<note><to>Mary</to></note>'') 26)) of
      None \<Rightarrow> False
    | Some (rs, t) \<Rightarrow>
        rs = [(Some (BeginNode \<lparr>begin_Name = ''note'', begin_Attribs = [], begin_Offset = 0\<rparr>), 7),
              (Some (BeginNode \<lparr>begin_Name = ''to'', begin_Attribs = [], begin_Offset = 6\<rparr>), 11),
              (Some (ValueNode \<lparr>value_Name = ''to'', value_Value = ''Mary''\<rparr>), 15),
              (Some (EndNode \<lparr>end_Name = ''to''\<rparr>), 20),
              (Some (EndNode \<lparr>end_Name = ''note''\<rparr>), 26),
              (None, 26)]
        \<and> sorted_wrt (<) (map snd (take 5 rs))
        \<and> ErrorInfo t = [])"
  by code_simp

section \<open>The end-of-file test of the memory interface\<close>

text \<open>
  The position of a memory interface never passes its size: \<open>ReadChar\<close> advances it only
  below the size and \<open>Seek\<close> clamps it. So on a buffer \<open>EndOfFile\<close>, which tests
  \<open>m_DataPos > m_DataSize\<close>, is false in every state, also after the last byte.
  \<open>Seek\<close> fails exactly on an offset beyond the size.
\<close>

lemma EndOfFile_buffer:
  "mem_Data r \<noteq> None \<Longrightarrow> mem_DataPos r \<le> mem_DataSize r \<Longrightarrow> \<not> EndOfFile r"
  by (simp add: EndOfFile_def)

lemma ReadChar_position:
  "mem_DataPos r \<le> mem_DataSize r \<Longrightarrow> ReadChar r = Some (c, r') \<Longrightarrow>
     mem_DataPos r' \<le> mem_DataSize r' \<and> mem_Data r' = mem_Data r"
  by (auto simp: ReadChar_def split: option.splits if_splits)

lemma Seek_position:
  "mem_DataPos (snd (Seek r offset)) \<le> mem_DataSize (snd (Seek r offset))
   \<and> mem_Data (snd (Seek r offset)) = mem_Data r"
  by (simp add: Seek_def Let_def)

lemma Seek_result:
  "fst (Seek r offset) = (offset \<le> mem_DataSize r)
   \<and> mem_DataPos (snd (Seek r offset)) = min offset (mem_DataSize r)"
  by (simp add: Seek_def Let_def)

text \<open>
  C4 (the code at the failing input). On the one-byte buffer \<open>a\<close>, after the byte has
  been read the position has reached the size and a further read fails, yet
  \<open>EndOfFile\<close> returns false.
\<close>

theorem EndOfFile_false_after_last_byte:
  "(case ReadChar (XmlMemoryInputInterface_new (Some ''a'') 1) of
      None \<Rightarrow> False
    | Some (c, r) \<Rightarrow>
        c = CHR ''a'' \<and> mem_DataPos r = mem_DataSize r \<and> ReadChar r = None
        \<and> EndOfFile r = False)"
  by (simp add: ReadChar_def XmlMemoryInputInterface_new_def EndOfFile_def)

section \<open>The end of the input inside an open element\<close>

text \<open>
  With the input exhausted (current character 0), an element open and no end node
  pending, \<open>NextNode\<close> returns true with a value node of empty text, and the state it
  leaves is of that kind again: every later call does the same.
\<close>

lemma NextNode_at_end_open:
  assumes "CurChar s = NUL" "m_Stack s \<noteq> []" "\<not> m_PriorWasEmptyTag s"
  shows "NextNode s =
     Some (Inr (Some (ValueNode \<lparr>value_Name = begin_Name (m_Begin (last (m_Stack s))),
                                 value_Value = []\<rparr>),
                s\<lparr>m_Stack := (m_Stack s)[length (m_Stack s) - 1 :=
                      (last (m_Stack s))\<lparr>m_Value :=
                          \<lparr>value_Name = begin_Name (m_Begin (last (m_Stack s))),
                           value_Value = []\<rparr>\<rparr>]\<rparr>))"
  using assms
  by (simp add: NextNode.simps read_while_stop ParseTagValueNode_def stack_top_def
        last_conv_nth NUL_def Let_def)

lemma NextNode_calls_at_end_open:
  "CurChar s = NUL \<Longrightarrow> m_Stack s \<noteq> [] \<Longrightarrow> \<not> m_PriorWasEmptyTag s \<Longrightarrow>
   \<exists>rs t. NextNode_calls n s = Some (rs, t)
     \<and> list_all (\<lambda>r. fst r \<noteq> None) rs \<and> length rs = n
     \<and> m_ErrorInfo t = m_ErrorInfo s \<and> m_Stack t \<noteq> []"
proof (induction n arbitrary: s)
  case 0
  then show ?case by simp
next
  case (Suc n)
  let ?s' = "s\<lparr>m_Stack := (m_Stack s)[length (m_Stack s) - 1 :=
                      (last (m_Stack s))\<lparr>m_Value :=
                          \<lparr>value_Name = begin_Name (m_Begin (last (m_Stack s))),
                           value_Value = []\<rparr>\<rparr>]\<rparr>"
  have "CurChar ?s' = NUL" "m_Stack ?s' \<noteq> []" "\<not> m_PriorWasEmptyTag ?s'"
    using Suc.prems by (simp_all add: CurChar_def)
  from Suc.IH [OF this] obtain rs t where
    "NextNode_calls n ?s' = Some (rs, t)" "list_all (\<lambda>r. fst r \<noteq> None) rs" "length rs = n"
    "m_ErrorInfo t = m_ErrorInfo ?s'" "m_Stack t \<noteq> []"
    by blast
  then show ?case
    using NextNode_at_end_open [OF Suc.prems] by simp
qed

text \<open>
  C2 (the code at the failing input). On the input \<open><a>\<close> the first call gives the
  begin node of \<open>a\<close> and exhausts the input; the second call returns true with a value
  node of \<open>a\<close> with empty text, and however many calls follow, each returns true with a
  node, the error text staying empty.
\<close>

theorem unclosed_tag_keeps_returning_nodes:
  "(case NextNode (snd (BeginParsingFromMemory XmlParser_new (Some ''<a>'') 3)) of
      Some (Inr (node, s1)) \<Rightarrow>
        node = Some (BeginNode \<lparr>begin_Name = ''a'', begin_Attribs = [], begin_Offset = 0\<rparr>)
        \<and> fst (NextChar s1) = False
        \<and> NextNode s1 = Some (Inr (Some (ValueNode \<lparr>value_Name = ''a'', value_Value = []\<rparr>),
               s1\<lparr>m_Stack := [(last (m_Stack s1))\<lparr>m_Value := \<lparr>value_Name = ''a'', value_Value = []\<rparr>\<rparr>]\<rparr>))
        \<and> (\<forall>n. \<exists>rs t. NextNode_calls n s1 = Some (rs, t) \<and> length rs = n
               \<and> list_all (\<lambda>r. fst r \<noteq> None) rs \<and> ErrorInfo t = [])
    | _ \<Rightarrow> False)"
proof -
  define s0 where "s0 = snd (BeginParsingFromMemory XmlParser_new (Some ''<a>'') 3)"
  obtain s1 where s1: "s1 = \<lparr>m_Stack = [XmlElementBase_new\<lparr>m_Begin := \<lparr>begin_Name = ''a'', begin_Attribs = [], begin_Offset = 0\<rparr>\<rparr>],
      m_PriorTagType = XmlNodeType_Invalid, m_PriorWasEmptyTag = False, m_PriorName = [],
      m_Reader = Some \<lparr>mem_Data = Some ''<a>'', mem_DataSize = 3, mem_DataPos = 3\<rparr>,
      m_DataSize = 3, m_DataPos = 3, m_ErrorInfo = [], m_CurChar = NUL, m_CurToken = ''a''\<rparr>"
    by blast
  have n1: "NextNode s0 = Some (Inr (Some (BeginNode \<lparr>begin_Name = ''a'', begin_Attribs = [], begin_Offset = 0\<rparr>), s1))"
    unfolding s0_def s1 by code_simp
  have a: "CurChar s1 = NUL" "m_Stack s1 \<noteq> []" "\<not> m_PriorWasEmptyTag s1" "m_ErrorInfo s1 = []"
    by (simp_all add: s1 CurChar_def)
  have b: "fst (NextChar s1) = False"
    unfolding s1 by code_simp
  have c: "\<forall>n. \<exists>rs t. NextNode_calls n s1 = Some (rs, t) \<and> length rs = n
               \<and> list_all (\<lambda>r. fst r \<noteq> None) rs \<and> ErrorInfo t = []"
    using NextNode_calls_at_end_open [OF a(1-3)] a(4) by (metis ErrorInfo_def)
  have d: "NextNode s1 = Some (Inr (Some (ValueNode \<lparr>value_Name = ''a'', value_Value = []\<rparr>),
               s1\<lparr>m_Stack := [(last (m_Stack s1))\<lparr>m_Value := \<lparr>value_Name = ''a'', value_Value = []\<rparr>\<rparr>]\<rparr>))"
    using NextNode_at_end_open [OF a(1-3)] by (simp add: s1 XmlElementBase_new_def)
  show ?thesis
    unfolding s0_def [symmetric] using n1 b c d by simp
qed

section \<open>A begin tag cut off by the end of the input\<close>

text \<open>
  At the end of the input the current character is 0, which is none of \<open>/\<close>, \<open>>\<close> and
  \<open>?\<close>, and \<open>NextToken\<close> changes nothing but the token: the attribute loop of
  \<open>ParseBeginTagNode\<close> does not return there. On the input \<open><a\<close> the first call of
  \<open>NextNode\<close> does not return.
\<close>

lemma NextToken_at_end:
  assumes "CurChar s = NUL"
  shows "snd (NextToken delims s) = s\<lparr>m_CurToken := []\<rparr>"
proof -
  let ?s0 = "s\<lparr>m_CurToken := []\<rparr>"
  have c: "CurChar ?s0 = NUL"
    using assms by (simp add: CurChar_def)
  then have "read_while P acc ?s0 = (acc, ?s0)" for P acc
    by (simp add: read_while_stop)
  then show ?thesis
    using c by (simp add: NextToken_def accumulate_token_def Let_def NUL_def)
qed

lemma parse_attribs_returns_before_end:
  assumes "parse_attribs elm s = Some y"
  shows "CurChar s \<noteq> NUL"
proof (rule parse_attribs.raw_induct [where P = "\<lambda>elm s y. CurChar s \<noteq> NUL", OF _ assms])
  fix f elm s y
  assume IH: "\<And>elm s y. f elm s = Some y \<Longrightarrow> CurChar s \<noteq> NUL"
    and eq: "(if CurChar s \<noteq> CHR ''/'' \<and> CurChar s \<noteq> CHR ''>'' \<and> CurChar s \<noteq> CHR ''?'' then
        (let s1 = snd (NextToken xmlDelimsWithEquals s);
             attribname = CurToken s1;
             att = \<lparr>att_Name = attribname, att_Value = []\<rparr>;
             s2 = (if CurChar s1 = CHR ''=''
                   then snd (NextToken xmlDelimsWithEquals (snd (NextChar s1)))
                   else s1);
             att1 = (if CurChar s1 = CHR ''='' then att\<lparr>att_Value := CurToken s2\<rparr> else att)
         in f (elm\<lparr>m_Begin := (m_Begin elm)\<lparr>begin_Attribs := begin_Attribs (m_Begin elm) @ [att1]\<rparr>\<rparr>)
              s2)
      else Some (elm, s)) = Some y"
  show "CurChar s \<noteq> NUL"
  proof
    assume a: "CurChar s = NUL"
    then have b: "CurChar (s\<lparr>m_CurToken := []\<rparr>) = NUL"
      by (simp add: CurChar_def)
    from eq a b obtain elm1 where "f elm1 (s\<lparr>m_CurToken := []\<rparr>) = Some y"
      by (simp add: NextToken_at_end [OF a] Let_def NUL_def)
    from IH [OF this] b show False
      by simp
  qed
qed

lemma parse_attribs_at_end: "CurChar s = NUL \<Longrightarrow> parse_attribs elm s = None"
  using parse_attribs_returns_before_end [of elm s] by (cases "parse_attribs elm s") auto

lemma begin_tag_cut_off_does_not_return:
  "NextNode (snd (BeginParsingFromMemory XmlParser_new (Some ''<a'') 2)) = None"
proof -
  let ?s = "snd (BeginParsingFromMemory XmlParser_new (Some ''<a'') 2)"
  let ?t = "snd (NextChar ?s)"
  have "fst (NextToken xmlDelimsWithSlash ?t) = True"
    "CurChar (snd (NextToken xmlDelimsWithSlash ?t)) = NUL"
    by code_simp+
  then obtain s2 where t: "NextToken xmlDelimsWithSlash ?t = (True, s2)" and c: "CurChar s2 = NUL"
    by (cases "NextToken xmlDelimsWithSlash ?t") auto
  have q: "CurChar ?t \<noteq> CHR ''?''"
    by code_simp
  have "ParseBeginTagNode ?t = None"
    using q by (simp add: ParseBeginTagNode_def Let_def t parse_attribs_at_end [OF c])
  moreover have "read_while iswspace [] ?s = ([], ?s)" "CurChar ?s = CHR ''<''"
    "CurChar ?t = CHR ''a''" "\<not> m_PriorWasEmptyTag ?s"
    by code_simp+
  ultimately show ?thesis
    by (subst NextNode.simps) (simp add: Let_def)
qed

section \<open>The tokenizer at the end of a buffer\<close>

text \<open>
  \<open>NextToken\<close> returns false exactly when the token is empty and \<open>EndOfDocument\<close> holds.
\<close>

lemma NextToken_result:
  "fst (NextToken delims s)
   = (\<not> (CurToken (snd (NextToken delims s)) = [] \<and> EndOfDocument (snd (NextToken delims s))))"
  by (simp add: NextToken_def Let_def CurToken_def)

lemma NextToken_empty_at_delimiter:
  assumes "CurChar s \<in> set delims" "\<not> iswspace (CurChar s)"
    and "CurChar s \<noteq> CHR 0x22" "CurChar s \<noteq> CHR 0x27" "\<not> EndOfDocument s"
  shows "NextToken delims s = (True, s\<lparr>m_CurToken := []\<rparr>)"
proof -
  let ?s0 = "s\<lparr>m_CurToken := []\<rparr>"
  have c: "CurChar ?s0 = CurChar s" "EndOfDocument ?s0 = EndOfDocument s"
    by (simp_all add: CurChar_def EndOfDocument_def)
  have "read_while iswspace [] ?s0 = ([], ?s0)"
    "read_while (\<lambda>c. c \<notin> set delims) [] ?s0 = ([], ?s0)"
    using assms(1,2) c by (simp_all add: read_while_stop)
  then show ?thesis
    using assms(3-5) c by (simp add: NextToken_def accumulate_token_def Let_def)
qed

text \<open>
  C8 (the code at the failing input). On the buffer \<open></\<close>, when \<open>ParseEndTagNode\<close> asks
  for the name the input is exhausted (the current character is 0 and a further read
  fails) and the token is empty, yet \<open>NextToken\<close> returns true, since \<open>EndOfDocument\<close>
  is false on a buffer; the error reported is the missing \<open>>\<close>, not the end of the input.
\<close>

theorem NextToken_succeeds_at_end_of_buffer:
  "(case NextToken xmlDelimsWithEquals
           (snd (NextChar (snd (NextChar
              (snd (BeginParsingFromMemory XmlParser_new (Some ''</'') 2)))))) of
      (ok, s) \<Rightarrow>
        ok = True \<and> CurToken s = [] \<and> CurChar s = NUL \<and> fst (NextChar s) = False
        \<and> EndOfDocument s = False)
   \<and> map_option fst (NextNode_calls 1 (snd (BeginParsingFromMemory XmlParser_new (Some ''</'') 2)))
       = Some [(None, 2)]
   \<and> map_option (ErrorInfo \<circ> snd)
         (NextNode_calls 1 (snd (BeginParsingFromMemory XmlParser_new (Some ''</'') 2)))
       = Some (''Expected '' @ [CHR 0x27] @ ''>'' @ [CHR 0x27] @ '' at end of tag:  '')"
  by code_simp

section \<open>No access to an empty stack\<close>

lemma stack_top_nonempty: "st \<noteq> [] \<Longrightarrow> stack_top st = Inr (last st)"
  by (simp add: stack_top_def last_conv_nth)

lemma stack_erase_top_nonempty: "st \<noteq> [] \<Longrightarrow> stack_erase_top st = Inr (butlast st)"
  by (simp add: stack_erase_top_def butlast_conv_take)

lemma ParseTagValueNode_no_fault: "ParseTagValueNode prefix s \<noteq> Inl f"
  by (simp add: ParseTagValueNode_def stack_top_nonempty Let_def split: prod.split)

lemma ParseEndTagNode_no_fault: "ParseEndTagNode s \<noteq> Inl f"
  by (simp add: ParseEndTagNode_def stack_top_nonempty stack_erase_top_nonempty Let_def
        split: prod.split bool.split)

lemma ParseBeginTagNode_no_fault: "ParseBeginTagNode s \<noteq> Some (Inl f)"
  by (simp add: ParseBeginTagNode_def Let_def split: prod.split bool.split option.split)

lemma no_fault: "ParseBangTag s \<noteq> Some (Inl f)" "NextNode s \<noteq> Some (Inl f)"
proof (induction s and s rule: ParseBangTag_NextNode.induct)
  case (1 s)
  then show ?case
    by (subst ParseBangTag.simps) (simp add: Let_def)
next
  case (2 s)
  then show ?case
    apply (subst NextNode.simps)
    apply (simp add: Let_def stack_top_nonempty stack_erase_top_nonempty ParseEndTagNode_no_fault
        ParseBeginTagNode_no_fault ParseTagValueNode_no_fault split: prod.split)
    done
qed

text \<open>
  C10. The parser reads the top of the stack and erases it in three places (the end tag,
  the value text and the end node of an empty tag), each under a test that the stack is
  not empty: whatever the state, neither these functions nor \<open>NextNode\<close> as a whole ever
  reach an access to an empty stack.
\<close>

theorem stack_access_guarded:
  "ParseTagValueNode prefix s \<noteq> Inl f \<and> ParseEndTagNode s \<noteq> Inl f
   \<and> ParseBeginTagNode s \<noteq> Some (Inl f) \<and> ParseBangTag s \<noteq> Some (Inl f)
   \<and> NextNode s \<noteq> Some (Inl f)"
  by (simp add: ParseTagValueNode_no_fault ParseEndTagNode_no_fault ParseBeginTagNode_no_fault
        no_fault)


section \<open>The returns of false\<close>

text \<open>
  A loop \<open>read_while\<close> ends at the character 0 or at a character that fails its test, and
  what it accumulates extends what it was given. Every return of false of the end tag
  and of the begin tag sets an error text; the value text returns false without one
  only on an empty stack, when it has read nothing but white space.
\<close>


lemma read_while_exit:
  "CurChar (snd (read_while P acc s)) = NUL \<or> \<not> P (CurChar (snd (read_while P acc s)))"
proof (induction P acc s rule: read_while.induct)
  case (1 P acc s)
  show ?case
  proof (cases "CurChar s \<noteq> NUL \<and> P (CurChar s)")
    case True
    with 1 show ?thesis
      by (simp add: read_while_step)
  next
    case False
    then show ?thesis
      by (auto simp add: read_while_stop)
  qed
qed

lemma read_while_acc: "\<exists>cs. fst (read_while P acc s) = acc @ cs"
proof (induction P acc s rule: read_while.induct)
  case (1 P acc s)
  show ?case
  proof (cases "CurChar s \<noteq> NUL \<and> P (CurChar s)")
    case True
    with 1 show ?thesis
      by (auto simp add: read_while_step)
  next
    case False
    then show ?thesis
      by (auto simp add: read_while_stop)
  qed
qed

lemma read_while_all: "list_all P acc \<Longrightarrow> list_all P (fst (read_while P acc s))"
proof (induction P acc s rule: read_while.induct)
  case (1 P acc s)
  show ?case
  proof (cases "CurChar s \<noteq> NUL \<and> P (CurChar s)")
    case True
    with 1 show ?thesis
      by (simp add: read_while_step)
  next
    case False
    with 1 show ?thesis
      by (auto simp add: read_while_stop)
  qed
qed

lemma ParseEndTagNode_false_sets_error:
  "ParseEndTagNode s = Inr (None, s') \<Longrightarrow> m_ErrorInfo s' \<noteq> []"
  by (auto simp: ParseEndTagNode_def Let_def split: prod.splits bool.splits if_splits sum.splits)

lemma ParseBeginTagNode_false_sets_error:
  "ParseBeginTagNode s = Some (Inr (None, s')) \<Longrightarrow> m_ErrorInfo s' \<noteq> []"
  by (auto simp: ParseBeginTagNode_def Let_def split: prod.splits bool.splits if_splits option.splits)

lemma ParseTagValueNode_clean_end:
  assumes "ParseTagValueNode prefix s = Inr (None, s')" "m_ErrorInfo s' = []"
    "IsWhiteSpace prefix" "\<not> iswspace (CurChar s)" "CurChar s \<noteq> CHR ''<''"
  shows "s' = s \<and> CurChar s = NUL \<and> m_Stack s = []"
proof -
  have nul: "CurChar s = NUL"
  proof (rule ccontr)
    assume c: "CurChar s \<noteq> NUL"
    then have "read_while (\<lambda>c. c \<noteq> CHR ''<'') prefix s
        = read_while (\<lambda>c. c \<noteq> CHR ''<'') (prefix @ [CurChar s]) (snd (NextChar s))"
      using assms(5) by (simp add: read_while_step)
    moreover obtain cs where "fst (read_while (\<lambda>c. c \<noteq> CHR ''<'') (prefix @ [CurChar s]) (snd (NextChar s)))
        = (prefix @ [CurChar s]) @ cs"
      using read_while_acc by blast
    ultimately have "\<not> IsWhiteSpace (fst (read_while (\<lambda>c. c \<noteq> CHR ''<'') prefix s))"
      using assms(4) by (simp add: IsWhiteSpace_def)
    then show False
      using assms(1,2)
      by (auto simp: ParseTagValueNode_def Let_def split: prod.splits if_splits sum.splits)
  qed
  then have "read_while (\<lambda>c. c \<noteq> CHR ''<'') prefix s = (prefix, s)"
    by (simp add: read_while_stop)
  then show ?thesis
    using assms(1,2) nul
    by (auto simp: ParseTagValueNode_def Let_def split: prod.splits if_splits sum.splits)
qed

lemma NextNode_after_clean_end:
  "CurChar s = NUL \<Longrightarrow> m_Stack s = [] \<Longrightarrow> NextNode s = Some (Inr (None, s))"
  by (simp add: NextNode.simps read_while_stop ParseTagValueNode_def IsWhiteSpace_def NUL_def)

section \<open>What the cursor functions leave unchanged\<close>

text \<open>
  Reading characters and tokens changes the cursor (the current character, the token, the
  reader and the position) and nothing else: the stack, the flag of the empty tag and the
  error text stay as they are.
\<close>


definition frame :: "XmlParser \<Rightarrow> XmlParser \<Rightarrow> bool" where
  "frame s t = (m_Stack t = m_Stack s \<and> m_PriorWasEmptyTag t = m_PriorWasEmptyTag s
                \<and> m_ErrorInfo t = m_ErrorInfo s)"

lemma frame_refl [simp]: "frame s s"
  by (simp add: frame_def)

lemma frame_trans: "frame s t \<Longrightarrow> frame t u \<Longrightarrow> frame s u"
  by (simp add: frame_def)

lemma NextChar_frame: "frame s (snd (NextChar s))"
  by (simp add: frame_def NextChar_def Let_def split: option.split)

lemma read_while_frame: "frame s (snd (read_while P acc s))"
proof (rule read_while_preserves [where Q = "frame s"])
  fix t assume "frame s t"
  then show "frame s (snd (NextChar t))"
    using NextChar_frame [of t] frame_trans by blast
qed simp

lemma frame_CurToken [simp]: "frame s (t\<lparr>m_CurToken := tok\<rparr>) = frame s t"
  "frame (s\<lparr>m_CurToken := tok\<rparr>) t = frame s t"
  by (simp_all add: frame_def)

lemma accumulate_token_frame: "frame s (accumulate_token P s)"
  using read_while_frame [of s P "m_CurToken s"]
  by (auto simp add: accumulate_token_def split: prod.split)

lemma NextToken_frame: "frame s (snd (NextToken delims s))"
proof -
  let ?s0 = "s\<lparr>m_CurToken := []\<rparr>"
  let ?s1 = "snd (read_while iswspace [] ?s0)"
  have f1: "frame s ?s1"
    using read_while_frame [of ?s0 iswspace "[]"] by simp
  have step: "\<And>t. frame s t \<Longrightarrow> frame s (snd (NextChar t))"
    using NextChar_frame frame_trans by blast
  have acc: "\<And>t P. frame s t \<Longrightarrow> frame s (accumulate_token P t)"
    using accumulate_token_frame frame_trans by blast
  have rw: "\<And>t. frame s t \<Longrightarrow> frame s (snd (read_while iswspace [] t))"
    using read_while_frame frame_trans by blast
  show ?thesis
    by (simp add: NextToken_def Let_def f1 step acc rw)
qed

definition attribs_kept :: "XmlElementBase \<Rightarrow> XmlParser \<Rightarrow> XmlElementBase \<times> XmlParser \<Rightarrow> bool" where
  "attribs_kept elm s y =
     (frame s (snd y) \<and> begin_Name (m_Begin (fst y)) = begin_Name (m_Begin elm)
      \<and> begin_Offset (m_Begin (fst y)) = begin_Offset (m_Begin elm)
      \<and> m_End (fst y) = m_End elm \<and> m_Value (fst y) = m_Value elm)"

lemma parse_attribs_frame:
  assumes "parse_attribs elm s = Some y"
  shows "attribs_kept elm s y"
proof (rule parse_attribs.raw_induct [where P = attribs_kept, OF _ assms])
  fix f elm s y
  assume IH: "\<And>elm s y. f elm s = Some y \<Longrightarrow> attribs_kept elm s y"
    and eq: "(if CurChar s \<noteq> CHR ''/'' \<and> CurChar s \<noteq> CHR ''>'' \<and> CurChar s \<noteq> CHR ''?'' then
        (let s1 = snd (NextToken xmlDelimsWithEquals s);
             attribname = CurToken s1;
             att = \<lparr>att_Name = attribname, att_Value = []\<rparr>;
             s2 = (if CurChar s1 = CHR ''=''
                   then snd (NextToken xmlDelimsWithEquals (snd (NextChar s1)))
                   else s1);
             att1 = (if CurChar s1 = CHR ''='' then att\<lparr>att_Value := CurToken s2\<rparr> else att)
         in f (elm\<lparr>m_Begin := (m_Begin elm)\<lparr>begin_Attribs := begin_Attribs (m_Begin elm) @ [att1]\<rparr>\<rparr>)
              s2)
      else Some (elm, s)) = Some y"
  show "attribs_kept elm s y"
  proof (cases "CurChar s \<noteq> CHR ''/'' \<and> CurChar s \<noteq> CHR ''>'' \<and> CurChar s \<noteq> CHR ''?''")
    case False
    with eq have "y = (elm, s)" by auto
    then show ?thesis by (simp add: attribs_kept_def)
  next
    case True
    let ?s1 = "snd (NextToken xmlDelimsWithEquals s)"
    let ?s2 = "if CurChar ?s1 = CHR ''='' then snd (NextToken xmlDelimsWithEquals (snd (NextChar ?s1))) else ?s1"
    have fr: "frame s ?s2"
      using NextToken_frame NextChar_frame frame_trans by (metis (full_types))
    from eq True obtain elm1 where e1: "f elm1 ?s2 = Some y"
      "begin_Name (m_Begin elm1) = begin_Name (m_Begin elm)"
      "begin_Offset (m_Begin elm1) = begin_Offset (m_Begin elm)"
      "m_End elm1 = m_End elm" "m_Value elm1 = m_Value elm"
      by (simp add: Let_def)
    show ?thesis
      using IH [OF e1(1)] e1(2-) fr frame_trans by (auto simp: attribs_kept_def)
  qed
qed

lemma eat_section_stack:
  "m_Stack (snd (eat_section k s)) = m_Stack s
   \<and> m_PriorWasEmptyTag (snd (eat_section k s)) = m_PriorWasEmptyTag s"
  by (rule eat_section_preserves
        [where Q = "\<lambda>t. m_Stack t = m_Stack s \<and> m_PriorWasEmptyTag t = m_PriorWasEmptyTag s"])
     (simp_all add: NextChar_def Let_def split: option.split)

section \<open>Nesting of the nodes\<close>

text \<open>
  \<open>nest_step\<close> replays one node on the list of the names of the open elements (innermost
  last): a begin node opens its name; a value node and an end node must carry the name of
  the innermost open element, and the end node closes it. \<open>nesting\<close> replays a list of
  nodes; the nodes are properly nested when the replay from the empty list succeeds and
  ends with the empty list. \<open>open_names\<close> reads the names off the stack of the parser, and
  \<open>pending_end_ok\<close> says that a pending end node of an empty tag has the name of the
  element on top of the stack.
\<close>


definition open_names :: "XmlParser \<Rightarrow> string list" where
  "open_names s = map (\<lambda>e. begin_Name (m_Begin e)) (m_Stack s)"

definition pending_end_ok :: "XmlParser \<Rightarrow> bool" where
  "pending_end_ok s =
     (if m_PriorWasEmptyTag s
      then m_Stack s \<noteq> []
           \<and> end_Name (m_End (last (m_Stack s))) = begin_Name (m_Begin (last (m_Stack s)))
      else True)"

fun nest_step :: "string list \<Rightarrow> XmlNodeBase \<Rightarrow> string list option" where
  "nest_step st (BeginNode b) = Some (st @ [begin_Name b])"
| "nest_step st (ValueNode v) = (if st \<noteq> [] \<and> last st = value_Name v then Some st else None)"
| "nest_step st (EndNode e) = (if st \<noteq> [] \<and> last st = end_Name e then Some (butlast st) else None)"

fun nesting :: "string list \<Rightarrow> XmlNodeBase list \<Rightarrow> string list option" where
  "nesting st [] = Some st"
| "nesting st (n # ns) = (case nest_step st n of None \<Rightarrow> None | Some st' \<Rightarrow> nesting st' ns)"

lemma ParseEndTagNode_step:
  assumes "\<not> m_PriorWasEmptyTag s" "ParseEndTagNode s = Inr (Some node, s')"
  shows "\<not> m_PriorWasEmptyTag s' \<and> nest_step (open_names s) node = Some (open_names s')"
proof -
  let ?s1 = "snd (NextChar s)"
  let ?s2 = "snd (NextToken xmlDelimsWithEquals ?s1)"
  let ?s3 = "snd (NextChar ?s2)"
  have fr: "frame s ?s3"
    using NextChar_frame NextToken_frame frame_trans by blast
  from assms(2) have ne: "m_Stack ?s3 \<noteq> []"
    and s': "s' = ?s3\<lparr>m_Stack := butlast (m_Stack ?s3)\<rparr>"
    and node: "node = EndNode \<lparr>end_Name = begin_Name (m_Begin (last (m_Stack ?s3)))\<rparr>"
    by (auto simp: ParseEndTagNode_def Let_def stack_top_nonempty stack_erase_top_nonempty
          butlast_list_update
          split: prod.splits bool.splits if_splits)
  show ?thesis
    using fr ne assms(1) by (simp add: s' node frame_def open_names_def last_map map_butlast)
qed

lemma ParseTagValueNode_step:
  assumes "\<not> m_PriorWasEmptyTag s" "ParseTagValueNode prefix s = Inr (Some node, s')"
  shows "\<not> m_PriorWasEmptyTag s' \<and> nest_step (open_names s) node = Some (open_names s')"
proof -
  let ?s1 = "snd (read_while (\<lambda>c. c \<noteq> CHR ''<'') prefix s)"
  have fr: "frame s ?s1"
    by (rule read_while_frame)
  from assms(2) obtain celm1 where ne: "m_Stack ?s1 \<noteq> []"
    and s': "s' = ?s1\<lparr>m_Stack := (m_Stack ?s1)[length (m_Stack ?s1) - 1 := celm1]\<rparr>"
    and c: "m_Begin celm1 = m_Begin (last (m_Stack ?s1))"
    and node: "node = ValueNode \<lparr>value_Name = begin_Name (m_Begin (last (m_Stack ?s1))),
                                  value_Value = fst (read_while (\<lambda>c. c \<noteq> CHR ''<'') prefix s)\<rparr>"
    by (auto simp: ParseTagValueNode_def Let_def stack_top_nonempty
          split: prod.splits if_splits)
  have "map (\<lambda>e. begin_Name (m_Begin e)) ((m_Stack ?s1)[length (m_Stack ?s1) - 1 := celm1])
      = map (\<lambda>e. begin_Name (m_Begin e)) (m_Stack ?s1)"
    using ne c by (simp add: map_update last_conv_nth list_update_same_conv)
  then show ?thesis
    using fr ne assms(1) by (simp add: s' node frame_def open_names_def last_map)
qed

lemma NextChar_fields [simp]:
  "m_Stack (snd (NextChar s)) = m_Stack s"
  "m_PriorWasEmptyTag (snd (NextChar s)) = m_PriorWasEmptyTag s"
  "m_ErrorInfo (snd (NextChar s)) = m_ErrorInfo s"
  using NextChar_frame [of s] by (simp_all add: frame_def)

lemma NextToken_fields [simp]:
  "m_Stack (snd (NextToken delims s)) = m_Stack s"
  "m_PriorWasEmptyTag (snd (NextToken delims s)) = m_PriorWasEmptyTag s"
  "m_ErrorInfo (snd (NextToken delims s)) = m_ErrorInfo s"
  using NextToken_frame [of s delims] by (simp_all add: frame_def)

lemma read_while_fields [simp]:
  "m_Stack (snd (read_while P acc s)) = m_Stack s"
  "m_PriorWasEmptyTag (snd (read_while P acc s)) = m_PriorWasEmptyTag s"
  "m_ErrorInfo (snd (read_while P acc s)) = m_ErrorInfo s"
  using read_while_frame [of s P acc] by (simp_all add: frame_def)

lemma ParseBeginTagNode_step:
  assumes "\<not> m_PriorWasEmptyTag s" "ParseBeginTagNode s = Some (Inr (Some node, s'))"
  shows "pending_end_ok s' \<and> nest_step (open_names s) node = Some (open_names s')"
proof -
  define q where "q = (CurChar s = CHR ''?'')"
  define s1 where "s1 = (if q then snd (NextChar s) else s)"
  define s2 where "s2 = snd (NextToken xmlDelimsWithSlash s1)"
  define elm where "elm = XmlElementBase_new\<lparr>m_Begin := (m_Begin XmlElementBase_new)
                          \<lparr>begin_Name := CurToken s2, begin_Offset := size_t_sub (m_DataPos s) 2\<rparr>\<rparr>"
  from assms(2) obtain elm1 s3 where pa: "parse_attribs elm s2 = Some (elm1, s3)"
    by (auto simp: ParseBeginTagNode_def Let_def q_def s1_def s2_def elm_def
          split: prod.splits bool.splits option.splits if_splits)
  define s4 where "s4 = (if q then snd (NextChar (s3\<lparr>m_PriorWasEmptyTag := True\<rparr>)) else s3)"
  define elm2 where "elm2 = (if q then elm1\<lparr>m_End := \<lparr>end_Name = begin_Name (m_Begin elm1)\<rparr>\<rparr> else elm1)"
  define s5 where "s5 = (if CurChar s4 = CHR ''/'' then snd (NextChar (s4\<lparr>m_PriorWasEmptyTag := True\<rparr>)) else s4)"
  define elm3 where "elm3 = (if CurChar s4 = CHR ''/'' then elm2\<lparr>m_End := \<lparr>end_Name = begin_Name (m_Begin elm2)\<rparr>\<rparr> else elm2)"
  define s6 where "s6 = snd (NextChar s5)"
  from assms(2) pa have res: "node = BeginNode (m_Begin elm3)" "s' = s6\<lparr>m_Stack := m_Stack s6 @ [elm3]\<rparr>"
    by (auto simp: ParseBeginTagNode_def Let_def q_def s1_def s2_def elm_def s4_def elm2_def
          s5_def elm3_def s6_def
          split: prod.splits bool.splits option.splits if_splits)
  have k: "attribs_kept elm s2 (elm1, s3)"
    using parse_attribs_frame [OF pa] .
  have st2: "m_Stack s2 = m_Stack s" "m_PriorWasEmptyTag s2 = m_PriorWasEmptyTag s"
    by (simp_all add: s2_def s1_def)
  have st3: "m_Stack s3 = m_Stack s" "m_PriorWasEmptyTag s3 = m_PriorWasEmptyTag s"
    using k st2 by (simp_all add: attribs_kept_def frame_def)
  have st6: "m_Stack s6 = m_Stack s"
    by (simp add: s6_def s5_def s4_def st3)
  have fl: "m_PriorWasEmptyTag s6 = (q \<or> CurChar s4 = CHR ''/'')"
    using assms(1) by (simp add: s6_def s5_def s4_def st3)
  have en: "q \<or> CurChar s4 = CHR ''/'' \<Longrightarrow> end_Name (m_End elm3) = begin_Name (m_Begin elm3)"
    by (auto simp: elm3_def elm2_def)
  show ?thesis
    using en by (auto simp: res pending_end_ok_def open_names_def st6 fl)
qed

lemma eat_section_fields [simp]:
  "m_Stack (snd (eat_section k s)) = m_Stack s"
  "m_PriorWasEmptyTag (snd (eat_section k s)) = m_PriorWasEmptyTag s"
  using eat_section_stack [of k s] by simp_all

lemma NextNode_step:
  "pending_end_ok s \<Longrightarrow> ParseBangTag s = Some (Inr (Some node, s')) \<Longrightarrow>
     pending_end_ok s' \<and> nest_step (open_names s) node = Some (open_names s')"
  "pending_end_ok s \<Longrightarrow> NextNode s = Some (Inr (Some node, s')) \<Longrightarrow>
     pending_end_ok s' \<and> nest_step (open_names s) node = Some (open_names s')"
proof (induction s and s rule: ParseBangTag_NextNode.induct)
  case (1 s)
  let ?s2 = "snd (NextChar (snd (NextChar s)))"
  have a: "pending_end_ok (snd (EatMarkedSection ?s2))"
    "open_names (snd (EatMarkedSection ?s2)) = open_names s"
    "pending_end_ok (snd (EatComment (snd (NextChar ?s2))))"
    "open_names (snd (EatComment (snd (NextChar ?s2)))) = open_names s"
    using "1.prems"(1)
    by (simp_all add: pending_end_ok_def open_names_def EatMarkedSection_def EatComment_def)
  from "1.prems"(2) show ?case
    apply (subst (asm) ParseBangTag.simps)
    apply (simp add: Let_def split: if_splits)
    using "1.IH"(1) a apply force
    using "1.IH"(2) a apply force
    done
next
  case (2 s)
  show ?case
  proof (cases "m_PriorWasEmptyTag s \<and> m_Stack s \<noteq> []")
    case True
    with "2.prems" show ?thesis
      by (subst (asm) NextNode.simps)
         (auto simp: Let_def stack_top_nonempty stack_erase_top_nonempty pending_end_ok_def
            open_names_def last_map map_butlast)
  next
    case False
    with "2.prems"(1) have nf: "\<not> m_PriorWasEmptyTag s"
      by (auto simp: pending_end_ok_def)
    obtain token s1 where r: "read_while iswspace [] s = (token, s1)"
      by (cases "read_while iswspace [] s")
    have s1: "m_Stack s1 = m_Stack s" "m_PriorWasEmptyTag s1 = m_PriorWasEmptyTag s"
      using read_while_fields [of iswspace "[]" s] r by simp_all
    let ?s2 = "snd (NextChar s1)"
    have s2: "open_names ?s2 = open_names s" "\<not> m_PriorWasEmptyTag ?s2" "pending_end_ok ?s2"
      "open_names s1 = open_names s" "\<not> m_PriorWasEmptyTag s1"
      using s1 nf by (simp_all add: open_names_def pending_end_ok_def)
    from "2.prems"(2) False r have
      "(CurChar s1 = CHR ''<'' \<and> CurChar ?s2 = CHR ''/'' \<and> ParseEndTagNode ?s2 = Inr (Some node, s'))
       \<or> (CurChar s1 = CHR ''<'' \<and> CurChar ?s2 \<noteq> CHR ''/'' \<and> CurChar ?s2 = CHR ''!''
           \<and> ParseBangTag ?s2 = Some (Inr (Some node, s')))
       \<or> (CurChar s1 = CHR ''<'' \<and> ParseBeginTagNode ?s2 = Some (Inr (Some node, s')))
       \<or> (ParseTagValueNode token s1 = Inr (Some node, s'))"
      by (subst (asm) NextNode.simps) (auto simp: Let_def split: if_splits)
    then show ?thesis
    proof (elim disjE conjE)
      assume "ParseEndTagNode ?s2 = Inr (Some node, s')"
      from ParseEndTagNode_step [OF s2(2) this] show ?thesis
        by (simp add: s2 pending_end_ok_def)
    next
      assume "CurChar s1 = CHR ''<''" "CurChar ?s2 \<noteq> CHR ''/''" "CurChar ?s2 = CHR ''!''"
        "ParseBangTag ?s2 = Some (Inr (Some node, s'))"
      then show ?thesis
        using "2.IH" [OF False r [symmetric], of ?s2] s2 by simp
    next
      assume "ParseBeginTagNode ?s2 = Some (Inr (Some node, s'))"
      from ParseBeginTagNode_step [OF s2(2) this] show ?thesis
        by (simp add: s2)
    next
      assume "ParseTagValueNode token s1 = Inr (Some node, s')"
      from ParseTagValueNode_step [OF s2(5) this] show ?thesis
        by (simp add: s2 pending_end_ok_def)
    qed
  qed
qed

lemma Eat_fields [simp]:
  "m_Stack (snd (EatComment s)) = m_Stack s"
  "m_PriorWasEmptyTag (snd (EatComment s)) = m_PriorWasEmptyTag s"
  "m_Stack (snd (EatMarkedSection s)) = m_Stack s"
  "m_PriorWasEmptyTag (snd (EatMarkedSection s)) = m_PriorWasEmptyTag s"
  by (simp_all add: EatComment_def EatMarkedSection_def)

section \<open>After the return of false\<close>

text \<open>
  When \<open>NextNode\<close> returns false and the error text is empty, the return came from
  \<open>ParseTagValueNode\<close> on an empty stack with nothing but white space read: the current
  character is 0 and the stack is empty, before and after the call.
\<close>


lemma clean_end:
  "ParseBangTag s = Some (Inr (None, s')) \<Longrightarrow> m_ErrorInfo s' = [] \<Longrightarrow>
     CurChar s' = NUL \<and> m_Stack s' = [] \<and> m_Stack s = []"
  "NextNode s = Some (Inr (None, s')) \<Longrightarrow> m_ErrorInfo s' = [] \<Longrightarrow>
     CurChar s' = NUL \<and> m_Stack s' = [] \<and> m_Stack s = []"
proof (induction s and s rule: ParseBangTag_NextNode.induct)
  case (1 s)
  let ?s2 = "snd (NextChar (snd (NextChar s)))"
  from "1.prems" consider
    (marked) "CurChar (snd (NextChar s)) = CHR ''[''"
      "NextNode (snd (EatMarkedSection ?s2)) = Some (Inr (None, s'))"
    | (comment) "CurChar (snd (NextChar s)) \<noteq> CHR ''[''"
      "CurChar (snd (NextChar s)) = CHR ''-'' \<and> CurChar ?s2 = CHR ''-''"
      "NextNode (snd (EatComment (snd (NextChar ?s2)))) = Some (Inr (None, s'))"
    by (subst (asm) ParseBangTag.simps) (auto simp: Let_def split: if_splits)
  then show ?case
  proof cases
    case marked
    from "1.IH"(1) [OF refl refl refl marked(1) marked(2) "1.prems"(2)] show ?thesis
      by simp
  next
    case comment
    from "1.IH"(2) [OF refl refl refl comment(1) comment(2) comment(3) "1.prems"(2)] show ?thesis
      by simp
  qed
next
  case (2 s)
  obtain token s1 where r: "read_while iswspace [] s = (token, s1)"
    by (cases "read_while iswspace [] s")
  have s1: "m_Stack s1 = m_Stack s"
    using read_while_fields [of iswspace "[]" s] r by simp
  have ws: "IsWhiteSpace token"
    using read_while_all [of iswspace "[]" s] r by (simp add: IsWhiteSpace_def)
  have ex: "CurChar s1 = NUL \<or> \<not> iswspace (CurChar s1)"
    using read_while_exit [of iswspace "[]" s] r by simp
  then have nws: "\<not> iswspace (CurChar s1)"
    by (auto simp: iswspace_def NUL_def)
  let ?s2 = "snd (NextChar s1)"
  from "2.prems"(1) r have
    "(ParseEndTagNode ?s2 = Inr (None, s'))
     \<or> (\<not> (m_PriorWasEmptyTag s \<and> m_Stack s \<noteq> []) \<and> CurChar s1 = CHR ''<''
         \<and> CurChar ?s2 \<noteq> CHR ''/'' \<and> CurChar ?s2 = CHR ''!''
         \<and> ParseBangTag ?s2 = Some (Inr (None, s')))
     \<or> (ParseBeginTagNode ?s2 = Some (Inr (None, s')))
     \<or> (CurChar s1 \<noteq> CHR ''<'' \<and> ParseTagValueNode token s1 = Inr (None, s'))"
    by (subst (asm) NextNode.simps)
       (auto simp: Let_def stack_top_def stack_erase_top_def split: if_splits)
  then show ?case
  proof (elim disjE conjE)
    assume "ParseEndTagNode ?s2 = Inr (None, s')"
    from ParseEndTagNode_false_sets_error [OF this] "2.prems"(2) show ?thesis
      by simp
  next
    assume a: "\<not> (m_PriorWasEmptyTag s \<and> m_Stack s \<noteq> [])" "CurChar s1 = CHR ''<''"
      "CurChar ?s2 \<noteq> CHR ''/''" "CurChar ?s2 = CHR ''!''"
      "ParseBangTag ?s2 = Some (Inr (None, s'))"
    from "2.IH" [OF a(1) r [symmetric] a(2) refl a(3) a(4) a(5) "2.prems"(2)] show ?thesis
      by (simp add: s1)
  next
    assume "ParseBeginTagNode ?s2 = Some (Inr (None, s'))"
    from ParseBeginTagNode_false_sets_error [OF this] "2.prems"(2) show ?thesis
      by simp
  next
    assume a: "CurChar s1 \<noteq> CHR ''<''" "ParseTagValueNode token s1 = Inr (None, s')"
    from ParseTagValueNode_clean_end [OF a(2) "2.prems"(2) ws nws a(1)] show ?thesis
      by (simp add: s1)
  qed
qed

text \<open>
  C3 (as amended). After \<open>NextNode\<close> has returned false with the error text empty, every
  later call returns false again, gives no node and leaves the whole parser state (stack,
  position, error text) as it is.
\<close>


theorem NextNode_after_clean_end_unchanged:
  assumes "NextNode s = Some (Inr (None, s'))" and "ErrorInfo s' = []"
  shows "NextNode s' = Some (Inr (None, s'))
     \<and> NextNode_calls n s' = Some (replicate n (None, CurPosition s'), s')"
proof -
  from clean_end(2) [OF assms(1)] assms(2) have "CurChar s' = NUL" "m_Stack s' = []"
    by (simp_all add: ErrorInfo_def)
  then have fp: "NextNode s' = Some (Inr (None, s'))"
    by (rule NextNode_after_clean_end)
  have "NextNode_calls n s' = Some (replicate n (None, CurPosition s'), s')"
    by (induction n) (simp_all add: fp)
  with fp show ?thesis
    by simp
qed

theorem NextNode_after_clean_end_unchanged_witness:
  "(case NextNode_calls 2 (snd (BeginParsingFromMemory XmlParser_new (Some ''<a/> '') 5)) of
      None \<Rightarrow> False
    | Some (rs, s) \<Rightarrow>
        (case NextNode s of
           Some (Inr (None, s')) \<Rightarrow>
             ErrorInfo s' = [] \<and> s' \<noteq> s \<and> NextNode s' = Some (Inr (None, s'))
             \<and> NextNode_calls 3 s' = Some (replicate 3 (None, CurPosition s'), s')
         | _ \<Rightarrow> False))"
proof -
  let ?c = "NextNode_calls 2 (snd (BeginParsingFromMemory XmlParser_new (Some ''<a/> '') 5))"
  define s where "s = snd (the ?c)"
  define s' where "s' = snd (projr (the (NextNode s)))"
  have "?c \<noteq> None"
    by code_simp
  then obtain rs t where "?c = Some (rs, t)"
    by auto
  then have c: "?c = Some (rs, s)"
    by (simp add: s_def)
  have n: "NextNode s = Some (Inr (None, s'))"
    unfolding s'_def s_def by code_simp
  have e: "ErrorInfo s' = []" and d: "s' \<noteq> s"
    unfolding s'_def s_def by code_simp+
  from NextNode_after_clean_end_unchanged [OF n e, of 3] c n e d show ?thesis
    by simp
qed

text \<open>
  C3 (the claim as stated fails). On the document \<open><a></b></a>\<close> the second call
  returns false with the error of the mismatched end tag; the third call returns true
  with the end node of \<open>a\<close>, it moves the position from 8 to 11 and pops the stack. The
  parser keeps no state that ends the session after an error.
\<close>

theorem node_after_fatal_error:
  "map_option fst
     (NextNode_calls 4 (snd (BeginParsingFromMemory XmlParser_new (Some ''<a></b></a>'') 11)))
   = Some [(Some (BeginNode \<lparr>begin_Name = ''a'', begin_Attribs = [], begin_Offset = 0\<rparr>), 4),
           (None, 8),
           (Some (EndNode \<lparr>end_Name = ''a''\<rparr>), 11),
           (None, 11)]
   \<and> map_option (ErrorInfo \<circ> snd)
        (NextNode_calls 2 (snd (BeginParsingFromMemory XmlParser_new (Some ''<a></b></a>'') 11)))
     = Some (''Mismatched end tag, found '' @ [CHR 0x27] @ ''b'' @ [CHR 0x27]
             @ '', expected '' @ [CHR 0x27] @ ''a'' @ [CHR 0x27])"
  by code_simp

section \<open>Accepted documents\<close>


lemma parse_nesting:
  "pending_end_ok s \<Longrightarrow> parse n s = Some (nodes, t) \<Longrightarrow> m_ErrorInfo t = [] \<Longrightarrow>
     nesting (open_names s) nodes = Some []"
proof (induction n arbitrary: s nodes)
  case 0
  then show ?case by simp
next
  case (Suc n)
  from Suc.prems(2) consider
    (node) node s' nodes' where "NextNode s = Some (Inr (Some node, s'))"
      "parse n s' = Some (nodes', t)" "nodes = node # nodes'"
    | (stop) "NextNode s = Some (Inr (None, t))" "nodes = []"
    by (auto split: option.splits sum.splits prod.splits)
  then show ?case
  proof cases
    case node
    from NextNode_step(2) [OF Suc.prems(1) node(1)] have
      "pending_end_ok s'" "nest_step (open_names s) node = Some (open_names s')"
      by simp_all
    with Suc.IH [OF _ node(2) Suc.prems(3)] node(3) show ?thesis
      by simp
  next
    case stop
    from clean_end(2) [OF stop(1) Suc.prems(3)] stop(2) show ?thesis
      by (simp add: open_names_def)
  qed
qed

text \<open>
  The names of the begin nodes and of the end nodes of a list of nodes, in order.
  \<open>ends_last\<close> says that no begin node follows an end node: the elements form a chain,
  none has a sibling.
\<close>

fun begin_names :: "XmlNodeBase list \<Rightarrow> string list" where
  "begin_names [] = []"
| "begin_names (BeginNode b # ns) = begin_Name b # begin_names ns"
| "begin_names (n # ns) = begin_names ns"

fun end_names :: "XmlNodeBase list \<Rightarrow> string list" where
  "end_names [] = []"
| "end_names (EndNode e # ns) = end_Name e # end_names ns"
| "end_names (n # ns) = end_names ns"

fun no_begin :: "XmlNodeBase list \<Rightarrow> bool" where
  "no_begin [] = True"
| "no_begin (BeginNode b # ns) = False"
| "no_begin (n # ns) = no_begin ns"

fun ends_last :: "XmlNodeBase list \<Rightarrow> bool" where
  "ends_last [] = True"
| "ends_last (EndNode e # ns) = no_begin ns"
| "ends_last (n # ns) = ends_last ns"

lemma no_begin_names: "no_begin ns \<Longrightarrow> begin_names ns = []"
  by (induction ns rule: no_begin.induct) simp_all

lemma nesting_no_begin:
  "no_begin ns \<Longrightarrow> nesting st ns = Some st' \<Longrightarrow> st = st' @ rev (end_names ns)"
proof (induction ns arbitrary: st)
  case Nil
  then show ?case by simp
next
  case (Cons n ns)
  show ?case
  proof (cases n)
    case (BeginNode b)
    with Cons.prems show ?thesis by simp
  next
    case (ValueNode v)
    with Cons show ?thesis by (simp split: if_splits)
  next
    case (EndNode e)
    with Cons.prems have a: "st \<noteq> []" "last st = end_Name e" "nesting (butlast st) ns = Some st'"
      "no_begin ns"
      by (simp_all split: if_splits)
    from Cons.IH [OF a(4) a(3)] have "butlast st = st' @ rev (end_names ns)" .
    then have "butlast st @ [last st] = st' @ rev (end_names ns) @ [end_Name e]"
      using a(2) by simp
    then show ?thesis
      using a(1) EndNode by simp
  qed
qed

lemma nesting_ends_last:
  "ends_last ns \<Longrightarrow> nesting st ns = Some st' \<Longrightarrow>
     st @ begin_names ns = st' @ rev (end_names ns)"
proof (induction ns arbitrary: st)
  case Nil
  then show ?case by simp
next
  case (Cons n ns)
  show ?case
  proof (cases n)
    case (BeginNode b)
    with Cons.prems have "ends_last ns" "nesting (st @ [begin_Name b]) ns = Some st'"
      by simp_all
    from Cons.IH [OF this] BeginNode show ?thesis
      by simp
  next
    case (ValueNode v)
    with Cons show ?thesis by (simp split: if_splits)
  next
    case (EndNode e)
    with Cons.prems have nb: "no_begin (n # ns)"
      by simp
    from nesting_no_begin [OF nb Cons.prems(2)] no_begin_names [OF nb] show ?thesis
      by simp
  qed
qed

lemma nesting_mset:
  "nesting st ns = Some st' \<Longrightarrow>
     mset st + mset (begin_names ns) = mset st' + mset (end_names ns)"
proof (induction ns arbitrary: st)
  case Nil
  then show ?case by simp
next
  case (Cons n ns)
  show ?case
  proof (cases n)
    case (BeginNode b)
    with Cons show ?thesis by force
  next
    case (ValueNode v)
    with Cons show ?thesis by (simp split: if_splits)
  next
    case (EndNode e)
    with Cons.prems have a: "st \<noteq> []" "last st = end_Name e" "nesting (butlast st) ns = Some st'"
      by (simp_all split: if_splits)
    have "mset st = mset (butlast st) + {#end_Name e#}"
      using a(1,2) by (cases st rule: rev_cases) simp_all
    with Cons.IH [OF a(3)] EndNode show ?thesis
      by simp
  qed
qed

text \<open>
  C1 (the claim as stated fails). The document \<open><a><b></b><c></c></a>\<close> is accepted
  without error; its begin nodes are \<open>a\<close>, \<open>b\<close>, \<open>c\<close> and its end nodes \<open>b\<close>, \<open>c\<close>,
  \<open>a\<close>, which is not the reverse \<open>c\<close>, \<open>b\<close>, \<open>a\<close>: an element is closed before its later
  sibling is opened.
\<close>

theorem siblings_close_in_document_order:
  "(case parse 8 (snd (BeginParsingFromMemory XmlParser_new (Some ''<a><b></b><c></c></a>'') 21)) of
      None \<Rightarrow> False
    | Some (nodes, t) \<Rightarrow>
        ErrorInfo t = []
        \<and> begin_names nodes = [''a'', ''b'', ''c'']
        \<and> end_names nodes = [''b'', ''c'', ''a'']
        \<and> end_names nodes \<noteq> rev (begin_names nodes))"
  by code_simp

text \<open>
  C1 (as amended). For every document that the parser accepts without error (the calls
  of \<open>NextNode\<close> end with the return of false and the error text is empty), the nodes are
  properly nested: every end node, and every value node, carries the name of the
  innermost element still open, and no element is left open at the end. So the names of
  the end nodes are the names of the begin nodes in some order, and they are their exact
  reverse whenever no begin node follows an end node.
\<close>

theorem accepted_document_properly_nested:
  assumes "BeginParsingFromMemory p data numbytes = (True, s)"
    and "parse n s = Some (nodes, t)"
    and "ErrorInfo t = []"
  shows "nesting [] nodes = Some []
     \<and> mset (end_names nodes) = mset (begin_names nodes)
     \<and> (ends_last nodes \<longrightarrow> end_names nodes = rev (begin_names nodes))"
proof -
  from assms(1) have "m_Stack s = []" "\<not> m_PriorWasEmptyTag s"
    by (auto simp: BeginParsingFromMemory_def BeginParsingImpl_def Reset_def Let_def
          NextChar_def split: option.splits prod.splits bool.splits)
  then have "pending_end_ok s" "open_names s = []"
    by (simp_all add: pending_end_ok_def open_names_def)
  with parse_nesting [OF _ assms(2)] assms(3) have n: "nesting [] nodes = Some []"
    by (simp add: ErrorInfo_def)
  from nesting_mset [OF n] nesting_ends_last [OF _ n] n show ?thesis
    by simp
qed

theorem accepted_document_properly_nested_witness:
  "(case BeginParsingFromMemory XmlParser_new (Some ''<a><b>x</b></a>'') 15 of
      (ok, s) \<Rightarrow>
        ok \<and> (case parse 8 s of
                None \<Rightarrow> False
              | Some (nodes, t) \<Rightarrow>
                  ErrorInfo t = [] \<and> length nodes = 5 \<and> ends_last nodes
                  \<and> nesting [] nodes = Some []
                  \<and> mset (end_names nodes) = mset (begin_names nodes)
                  \<and> end_names nodes = rev (begin_names nodes)))"
proof -
  let ?b = "BeginParsingFromMemory XmlParser_new (Some ''<a><b>x</b></a>'') 15"
  have ok: "fst ?b = True"
    by code_simp
  then have b: "?b = (True, snd ?b)"
    by (metis prod.collapse)
  have "parse 8 (snd ?b) \<noteq> None"
    by code_simp
  then obtain nodes t where p: "parse 8 (snd ?b) = Some (nodes, t)"
    by auto
  have "ErrorInfo (snd (the (parse 8 (snd ?b)))) = []" "length (fst (the (parse 8 (snd ?b)))) = 5"
    "ends_last (fst (the (parse 8 (snd ?b))))"
    by code_simp+
  with p have e: "ErrorInfo t = []" "length nodes = 5" "ends_last nodes"
    by simp_all
  from accepted_document_properly_nested [OF b p e(1)] ok p e show ?thesis
    by (simp add: case_prod_beta)
qed

section \<open>Comments and marked sections\<close>

text \<open>
  \<open>upcoming s\<close> is the input the reader of \<open>s\<close> has not delivered yet, and \<open>consume n s\<close>
  the state after \<open>n\<close> calls of \<open>NextChar\<close>. \<open>lone c text\<close> says that \<open>text\<close> has no two
  \<open>c\<close> in a row and does not end in \<open>c\<close>.

  When the text of a comment has no \<open>--\<close> and does not end in \<open>-\<close> (as XML requires of a
  comment), and when the text of a marked section has no \<open>]]\<close> and does not end in \<open>]\<close>,
  the loop finds the end of the section where it is: \<open>NextNode\<close> at the \<open><\<close> of the
  section returns what it returns in the state after the section, which has the same
  stack (only the error text is set when the input ends with the section).
\<close>

definition upcoming :: "XmlParser \<Rightarrow> string" where
  "upcoming s =
     (case m_Reader s of
        None \<Rightarrow> []
      | Some r \<Rightarrow>
          (case mem_Data r of
             None \<Rightarrow> []
           | Some bytes \<Rightarrow> map (\<lambda>i. bytes ! i) [mem_DataPos r ..< mem_DataSize r]))"

fun consume :: "nat \<Rightarrow> XmlParser \<Rightarrow> XmlParser" where
  "consume 0 s = s"
| "consume (Suc n) s = consume n (snd (NextChar s))"

fun lone :: "char \<Rightarrow> string \<Rightarrow> bool" where
  "lone c [] = True"
| "lone c [x] = (x \<noteq> c)"
| "lone c (x # y # zs) = ((x \<noteq> c \<or> y \<noteq> c) \<and> lone c (y # zs))"

lemma NextChar_upcoming_Cons:
  assumes "upcoming s = c # cs"
  shows "fst (NextChar s)" "CurChar (snd (NextChar s)) = c" "upcoming (snd (NextChar s)) = cs"
proof -
  from assms obtain r bytes where r: "m_Reader s = Some r" "mem_Data r = Some bytes"
    by (auto simp: upcoming_def split: option.splits)
  with assms have m: "map (\<lambda>i. bytes ! i) [mem_DataPos r ..< mem_DataSize r] = c # cs"
    by (simp add: upcoming_def)
  then have lt: "mem_DataPos r < mem_DataSize r"
    by (cases "mem_DataPos r < mem_DataSize r") auto
  with m have "bytes ! mem_DataPos r = c"
    "map (\<lambda>i. bytes ! i) [Suc (mem_DataPos r) ..< mem_DataSize r] = cs"
    by (simp_all add: upt_conv_Cons)
  with r lt show "fst (NextChar s)" "CurChar (snd (NextChar s)) = c"
    "upcoming (snd (NextChar s)) = cs"
    by (simp_all add: NextChar_def ReadChar_def Let_def CurChar_def upcoming_def)
qed

lemma NextChar_upcoming_Nil:
  assumes "upcoming s = []"
  shows "\<not> fst (NextChar s)" "CurChar (snd (NextChar s)) = NUL" "upcoming (snd (NextChar s)) = []"
  using assms
  by (auto simp: NextChar_def ReadChar_def Let_def CurChar_def upcoming_def
        split: option.splits if_splits)

lemma consume_add: "consume (m + n) s = consume n (consume m s)"
  by (induction m arbitrary: s) simp_all

lemma lone_tl: "lone c (x # bs) \<Longrightarrow> lone c bs"
  by (cases bs) simp_all

lemma lone_closer: "lone c (c # bs) \<Longrightarrow> \<exists>y zs. bs = y # zs \<and> y \<noteq> c"
  by (cases bs) simp_all

lemma eat_section_skips:
  assumes "CurChar s # upcoming s = body @ [closer k, closer k, CHR ''>''] @ rest"
    and "lone (closer k) body"
  shows "eat_section k s =
     (if rest = []
      then (False, (consume (length body + 3) s)\<lparr>m_ErrorInfo := ''Unexpected end of input.''\<rparr>)
      else (True, consume (length body + 3) s))"
  using assms
proof (induction body arbitrary: s)
  case Nil
  then have c: "CurChar s = closer k" and u: "upcoming s = closer k # CHR ''>'' # rest"
    by simp_all
  let ?s1 = "snd (NextChar s)"
  let ?s2 = "snd (NextChar ?s1)"
  from NextChar_upcoming_Cons [OF u] have c1: "CurChar ?s1 = closer k"
    and u1: "upcoming ?s1 = CHR ''>'' # rest"
    by simp_all
  from NextChar_upcoming_Cons [OF u1] have c2: "CurChar ?s2 = CHR ''>''"
    and u2: "upcoming ?s2 = rest"
    by simp_all
  have "fst (NextChar ?s2) = (rest \<noteq> [])"
    using NextChar_upcoming_Cons(1) [of ?s2] NextChar_upcoming_Nil(1) [of ?s2] u2
    by (cases rest) auto
  then show ?case
    using eat_section_found [OF c c1 c2] by (simp add: numeral_3_eq_3)
next
  case (Cons x bs)
  then have c: "CurChar s = x" and u: "upcoming s = bs @ [closer k, closer k, CHR ''>''] @ rest"
    by simp_all
  let ?s1 = "snd (NextChar s)"
  obtain y ys where ys: "bs @ [closer k, closer k, CHR ''>''] @ rest = y # ys"
    by (cases bs) auto
  from NextChar_upcoming_Cons [of s y ys] u ys have ok: "fst (NextChar s)"
    and v: "CurChar ?s1 # upcoming ?s1 = bs @ [closer k, closer k, CHR ''>''] @ rest"
    by simp_all
  have lb: "lone (closer k) bs"
    using Cons.prems(2) lone_tl by blast
  have step: "eat_section k s = eat_section k ?s1"
  proof (cases "x = closer k")
    case False
    with c ok show ?thesis
      by (simp add: eat_section_other)
  next
    case True
    with Cons.prems(2) obtain z zs where "bs = z # zs" "z \<noteq> closer k"
      using lone_closer by blast
    with v have "CurChar ?s1 \<noteq> closer k"
      by simp
    with c True show ?thesis
      by (simp add: eat_section_one)
  qed
  have "consume (length (x # bs) + 3) s = consume (length bs + 3) ?s1"
    by (metis add_Suc consume.simps(2) length_Cons)
  with Cons.IH [OF v lb] step show ?case
    by (simp only:)
qed


lemma consume_fields [simp]:
  "m_Stack (consume n s) = m_Stack s"
  "m_PriorWasEmptyTag (consume n s) = m_PriorWasEmptyTag s"
  "m_ErrorInfo (consume n s) = m_ErrorInfo s"
  by (induction n arbitrary: s) simp_all

lemma NextNode_at_bang:
  assumes "CurChar s = CHR ''<''" "upcoming s = CHR ''!'' # cs"
    and "\<not> (m_PriorWasEmptyTag s \<and> m_Stack s \<noteq> [])"
  shows "NextNode s = ParseBangTag (consume 1 s)"
proof -
  have "read_while iswspace [] s = ([], s)"
    using assms(1) by (simp add: read_while_stop iswspace_def)
  moreover have "CurChar (snd (NextChar s)) = CHR ''!''"
    using NextChar_upcoming_Cons(2) [OF assms(2)] .
  ultimately show ?thesis
    using assms(1,3) by (subst NextNode.simps) (auto simp add: Let_def)
qed

lemma comment_skipped:
  assumes "CurChar s = CHR ''<''"
    and "upcoming s = ''!--'' @ body @ ''-->'' @ rest"
    and "lone (CHR ''-'') body"
    and "\<not> (m_PriorWasEmptyTag s \<and> m_Stack s \<noteq> [])"
  shows "NextNode s =
     NextNode (if rest = []
               then (consume (length body + 7) s)\<lparr>m_ErrorInfo := ''Unexpected end of input.''\<rparr>
               else consume (length body + 7) s)"
proof -
  obtain y ys where ys: "body @ ''-->'' @ rest = y # ys"
    by (cases body) auto
  let ?s1 = "consume 1 s"
  let ?s2 = "snd (NextChar ?s1)"
  let ?s3 = "snd (NextChar ?s2)"
  let ?s4 = "snd (NextChar ?s3)"
  have u1: "upcoming ?s1 = ''--'' @ body @ ''-->'' @ rest"
    using NextChar_upcoming_Cons [of s "CHR ''!''"] assms(2) by simp
  then have c2: "CurChar ?s2 = CHR ''-''" and u2: "upcoming ?s2 = ''-'' @ body @ ''-->'' @ rest"
    using NextChar_upcoming_Cons [of ?s1 "CHR ''-''"] by simp_all
  then have c3: "CurChar ?s3 = CHR ''-''" and u3: "upcoming ?s3 = y # ys"
    using NextChar_upcoming_Cons [of ?s2 "CHR ''-''"] ys by simp_all
  then have v4: "CurChar ?s4 # upcoming ?s4 = body @ [closer Comment, closer Comment, CHR ''>''] @ rest"
    using NextChar_upcoming_Cons [of ?s3 y ys] ys by simp
  have s4: "?s4 = consume 4 s"
    by (simp add: numeral_eq_Suc)
  have "consume (length body + 3) (consume 4 s) = consume (length body + 7) s"
    using consume_add [of 4 "length body + 3" s] by (simp add: add.commute)
  with eat_section_skips [OF v4] assms(3) s4 have e: "EatComment ?s4 =
     (if rest = []
      then (False, (consume (length body + 7) s)\<lparr>m_ErrorInfo := ''Unexpected end of input.''\<rparr>)
      else (True, consume (length body + 7) s))"
    by (simp add: EatComment_def)
  have "ParseBangTag ?s1 = NextNode (snd (EatComment ?s4))"
    using c2 c3 by (subst ParseBangTag.simps) (simp add: Let_def)
  with NextNode_at_bang [OF assms(1) _ assms(4)] assms(2) e show ?thesis
    by simp
qed

lemma marked_section_skipped:
  assumes "CurChar s = CHR ''<''"
    and "upcoming s = ''!['' @ body @ '']]>'' @ rest"
    and "lone (CHR '']'') body"
    and "\<not> (m_PriorWasEmptyTag s \<and> m_Stack s \<noteq> [])"
  shows "NextNode s =
     NextNode (if rest = []
               then (consume (length body + 6) s)\<lparr>m_ErrorInfo := ''Unexpected end of input.''\<rparr>
               else consume (length body + 6) s)"
proof -
  obtain y ys where ys: "body @ '']]>'' @ rest = y # ys"
    by (cases body) auto
  let ?s1 = "consume 1 s"
  let ?s2 = "snd (NextChar ?s1)"
  let ?s3 = "snd (NextChar ?s2)"
  have u1: "upcoming ?s1 = ''['' @ body @ '']]>'' @ rest"
    using NextChar_upcoming_Cons [of s "CHR ''!''"] assms(2) by simp
  then have c2: "CurChar ?s2 = CHR ''[''" and u2: "upcoming ?s2 = y # ys"
    using NextChar_upcoming_Cons [of ?s1 "CHR ''[''"] ys by simp_all
  then have v3: "CurChar ?s3 # upcoming ?s3 = body @ [closer MarkedSection, closer MarkedSection, CHR ''>''] @ rest"
    using NextChar_upcoming_Cons [of ?s2 y ys] ys by simp
  have s3: "?s3 = consume 3 s"
    by (simp add: numeral_eq_Suc)
  have "consume (length body + 3) (consume 3 s) = consume (length body + 6) s"
    using consume_add [of 3 "length body + 3" s] by (simp add: add.commute)
  with eat_section_skips [OF v3] assms(3) s3 have e: "EatMarkedSection ?s3 =
     (if rest = []
      then (False, (consume (length body + 6) s)\<lparr>m_ErrorInfo := ''Unexpected end of input.''\<rparr>)
      else (True, consume (length body + 6) s))"
    by (simp add: EatMarkedSection_def)
  have "ParseBangTag ?s1 = NextNode (snd (EatMarkedSection ?s3))"
    using c2 by (subst ParseBangTag.simps) (simp add: Let_def)
  with NextNode_at_bang [OF assms(1) _ assms(4)] assms(2) e show ?thesis
    by simp
qed

text \<open>
  C7 (the code at the failing input). Before \<open><a/>\<close>, the marked section
  \<open><![CDATA[x]]>\<close> gives no node: the calls give the begin node of \<open>a\<close> (at offset 13),
  its end node, and false with no error. The marked section \<open><![CDATA[x]]]>\<close>, whose text
  \<open>x]\<close> ends in \<open>]\<close>, is not seen to end: the first call reads to the end of the input
  (position 18) and returns false with the error of the end of the input, and the nodes
  of \<open>a\<close> are never given.
\<close>

theorem marked_section_ending_in_bracket_swallows_next_tag:
  "map_option fst (NextNode_calls 3
       (snd (BeginParsingFromMemory XmlParser_new (Some ''<![CDATA[x]]><a/>'') 17)))
     = Some [(Some (BeginNode \<lparr>begin_Name = ''a'', begin_Attribs = [], begin_Offset = 13\<rparr>), 17),
             (Some (EndNode \<lparr>end_Name = ''a''\<rparr>), 17),
             (None, 17)]
   \<and> map_option (ErrorInfo \<circ> snd) (NextNode_calls 3
       (snd (BeginParsingFromMemory XmlParser_new (Some ''<![CDATA[x]]><a/>'') 17)))
     = Some []
   \<and> map_option fst (NextNode_calls 2
       (snd (BeginParsingFromMemory XmlParser_new (Some ''<![CDATA[x]]]><a/>'') 18)))
     = Some [(None, 18), (None, 18)]
   \<and> map_option (ErrorInfo \<circ> snd) (NextNode_calls 1
       (snd (BeginParsingFromMemory XmlParser_new (Some ''<![CDATA[x]]]><a/>'') 18)))
     = Some ''Unexpected end of input.''"
  by code_simp

end
